theory Spec2Isabelle
  imports Complex_Main "HOL-Library.Word"
begin

unbundle bit_operations_syntax

section \<open>The allocator benchmark \<open>bench-allocator.c\<close>\<close>

text \<open>
  The program is a single C file for Linux on an LP64 platform: \<open>unsigned long long\<close> and
  \<open>size_t\<close> are 64-bit words, \<open>int\<close> is a 32-bit signed integer and \<open>long\<close> a 64-bit
  signed integer. Loop counters and counts of type \<open>int\<close> are modelled as \<open>int\<close>: the
  counters only run from 0 (or 1) up to their bound, so they never leave the range of the
  C type when the bound is in it.
\<close>

type_synonym u64 = "64 word"
type_synonym byte = "8 word"

subsection \<open>The generator (lines 22-37)\<close>

text \<open>The initial value of the global \<open>rng_state\<close>.\<close>

definition rng_seed :: u64 where
  "rng_seed = 0xdeadbeefcafe1234"

text \<open>
  \<open>xorshift64\<close> reads the global register, mixes it, stores the result back and returns
  it. The model passes the register explicitly: the argument is the old register, the
  result is the returned value paired with the new register. \<open><<\<close> on an unsigned 64-bit
  value drops the bits shifted out (\<open>push_bit\<close> on a word), \<open>>>\<close> is the logical shift.
\<close>

definition xorshift64 :: "u64 \<Rightarrow> u64 \<times> u64" where
  "xorshift64 rng =
     (let x = rng;
          x = x XOR push_bit 13 x;
          x = x XOR drop_bit 7 x;
          x = x XOR push_bit 17 x
      in (x, x))"

text \<open>Every failure of the program that is undefined behaviour or a trap in C.\<close>

datatype error = DivByZero | NullDeref | InvalidAccess | InvalidFree | UninitRead

text \<open>
  \<open>rand_range lo hi\<close> is \<open>lo + (xorshift64() % (hi - lo))\<close> on 64-bit unsigned values.
  The remainder by zero (\<open>hi = lo\<close>) traps.
\<close>

definition rand_range :: "u64 \<Rightarrow> u64 \<Rightarrow> u64 \<Rightarrow> error + (u64 \<times> u64)" where
  "rand_range lo hi rng =
     (case xorshift64 rng of
        (x, rng') \<Rightarrow>
          if hi - lo = 0 then Inl DivByZero
          else Inr (lo + x mod (hi - lo), rng'))"

text \<open>The first \<open>n\<close> values returned by successive calls, and the register after them.\<close>

fun draws :: "nat \<Rightarrow> u64 \<Rightarrow> u64 list" where
  "draws 0 rng = []"
| "draws (Suc n) rng = (case xorshift64 rng of (x, rng') \<Rightarrow> x # draws n rng')"

fun rng_after :: "nat \<Rightarrow> u64 \<Rightarrow> u64" where
  "rng_after 0 rng = rng"
| "rng_after (Suc n) rng = rng_after n (snd (xorshift64 rng))"

text \<open>
  The transformation as the specification words it, on natural numbers: a left shift by
  \<open>k\<close> is a multiplication by \<open>2 ^ k\<close> cut to 64 bits, a right shift a division by
  \<open>2 ^ k\<close>, and each shifted value is XORed into the running value.
\<close>

definition spec_shl :: "nat \<Rightarrow> nat \<Rightarrow> nat" where
  "spec_shl k x = (x * 2 ^ k) mod 2 ^ 64"

definition spec_shr :: "nat \<Rightarrow> nat \<Rightarrow> nat" where
  "spec_shr k x = x div 2 ^ k"

definition spec_next :: "nat \<Rightarrow> nat" where
  "spec_next s =
     (let x1 = s XOR spec_shl 13 s;
          x2 = x1 XOR spec_shr 7 x1;
          x3 = x2 XOR spec_shl 17 x2
      in x3)"


subsection \<open>Memory and the allocator\<close>

text \<open>
  The program compares pointers with \<open>NULL\<close> only, so a pointer is \<open>NULL\<close> or the
  identity of an allocated block. The heap is the table of all blocks ever allocated,
  indexed by identity: \<open>None\<close> is a block that has been freed, \<open>Some\<close> a live block
  with its content. A block holds bytes (a buffer) or pointers (the handle array of the
  accumulate phase); a cell that was never written is indeterminate (\<open>None\<close>), since
  \<open>malloc\<close> does not initialise.

  The allocator is outside the program (it is swapped with \<open>LD_PRELOAD\<close>): whether
  the \<open>n\<close>-th call of \<open>malloc\<close> succeeds is given by \<open>malloc_ok n\<close>, an arbitrary
  function, and \<open>malloc_calls\<close> counts the calls made so far.
\<close>

datatype ptr = NULL | Blk nat

datatype block = Bytes "byte option list" | Handles "ptr option list"

record world =
  rng_state :: u64
  heap :: "block option list"
  malloc_calls :: nat
  malloc_ok :: "nat \<Rightarrow> bool"

definition lookup :: "world \<Rightarrow> nat \<Rightarrow> block option" where
  "lookup w b = (if b < length (heap w) then heap w ! b else None)"

definition live_blocks :: "world \<Rightarrow> nat set" where
  "live_blocks w = set (filter (\<lambda>b. lookup w b \<noteq> None) [0..<length (heap w)])"

text \<open>
  \<open>malloc blk\<close> asks for a block whose indeterminate image is \<open>blk\<close>: it returns
  \<open>NULL\<close> when the allocator refuses, the identity of a new block otherwise.
\<close>

definition malloc :: "block \<Rightarrow> world \<Rightarrow> ptr \<times> world" where
  "malloc blk w =
     (if malloc_ok w (malloc_calls w)
      then (Blk (length (heap w)),
            w\<lparr>heap := heap w @ [Some blk], malloc_calls := Suc (malloc_calls w)\<rparr>)
      else (NULL, w\<lparr>malloc_calls := Suc (malloc_calls w)\<rparr>))"

text \<open>\<open>free(NULL)\<close> does nothing; freeing a block that is not live is undefined.\<close>

definition free :: "ptr \<Rightarrow> world \<Rightarrow> error + world" where
  "free p w =
     (case p of
        NULL \<Rightarrow> Inr w
      | Blk b \<Rightarrow>
          if lookup w b \<noteq> None then Inr (w\<lparr>heap := (heap w)[b := None]\<rparr>)
          else Inl InvalidFree)"

text \<open>\<open>memset(p, c, n)\<close> writes \<open>c\<close> to the first \<open>n\<close> bytes of a live buffer.\<close>

definition memset :: "ptr \<Rightarrow> byte \<Rightarrow> nat \<Rightarrow> world \<Rightarrow> error + world" where
  "memset p c n w =
     (case p of
        NULL \<Rightarrow> Inl NullDeref
      | Blk b \<Rightarrow>
          (case lookup w b of
             Some (Bytes bs) \<Rightarrow>
               if n \<le> length bs
               then Inr (w\<lparr>heap := (heap w)[b := Some (Bytes (replicate n (Some c) @ drop n bs))]\<rparr>)
               else Inl InvalidAccess
           | _ \<Rightarrow> Inl InvalidAccess))"

text \<open>\<open>a[i] = p\<close> and the read of \<open>a[i]\<close>, for a handle array \<open>a\<close> on the heap.\<close>

definition store_handle :: "ptr \<Rightarrow> int \<Rightarrow> ptr \<Rightarrow> world \<Rightarrow> error + world" where
  "store_handle a i p w =
     (case a of
        NULL \<Rightarrow> Inl NullDeref
      | Blk b \<Rightarrow>
          (case lookup w b of
             Some (Handles cs) \<Rightarrow>
               if 0 \<le> i \<and> nat i < length cs
               then Inr (w\<lparr>heap := (heap w)[b := Some (Handles (cs[nat i := Some p]))]\<rparr>)
               else Inl InvalidAccess
           | _ \<Rightarrow> Inl InvalidAccess))"

definition load_handle :: "ptr \<Rightarrow> int \<Rightarrow> world \<Rightarrow> error + ptr" where
  "load_handle a i w =
     (case a of
        NULL \<Rightarrow> Inl NullDeref
      | Blk b \<Rightarrow>
          (case lookup w b of
             Some (Handles cs) \<Rightarrow>
               if 0 \<le> i \<and> nat i < length cs
               then (case cs ! nat i of None \<Rightarrow> Inl UninitRead | Some p \<Rightarrow> Inr p)
               else Inl InvalidAccess
           | _ \<Rightarrow> Inl InvalidAccess))"

subsection \<open>Phase 1: churn (lines 62-85)\<close>

definition POOL :: nat where
  "POOL = 2048"

text \<open>Lines 71-74: an occupied slot is released and cleared.\<close>

definition churn_release :: "nat \<Rightarrow> ptr list \<Rightarrow> world \<Rightarrow> error + (ptr list \<times> world)" where
  "churn_release idx pool w =
     (if pool ! idx \<noteq> NULL
      then (case free (pool ! idx) w of
              Inl e \<Rightarrow> Inl e
            | Inr w' \<Rightarrow> Inr (pool[idx := NULL], w'))
      else Inr (pool, w))"

text \<open>Lines 76-79: a buffer of a drawn size goes into the slot and is filled.\<close>

definition churn_fill :: "int \<Rightarrow> nat \<Rightarrow> ptr list \<Rightarrow> world \<Rightarrow> error + (ptr list \<times> world)" where
  "churn_fill i idx pool w =
     (case rand_range 64 4096 (rng_state w) of
        Inl e \<Rightarrow> Inl e
      | Inr (sz, rng') \<Rightarrow>
          (case malloc (Bytes (replicate (unat sz) None)) (w\<lparr>rng_state := rng'\<rparr>) of
             (p, w1) \<Rightarrow>
               if p \<noteq> NULL
               then (case memset p (word_of_int (i AND 255)) (unat sz) w1 of
                       Inl e \<Rightarrow> Inl e
                     | Inr w2 \<Rightarrow> Inr (pool[idx := p], w2))
               else Inr (pool[idx := p], w1)))"

text \<open>The slot index drawn at line 69.\<close>

definition churn_idx :: "world \<Rightarrow> nat" where
  "churn_idx w = unat (fst (xorshift64 (rng_state w)) mod of_nat POOL)"

definition churn_body :: "int \<Rightarrow> ptr list \<Rightarrow> world \<Rightarrow> error + (ptr list \<times> world)" where
  "churn_body i pool w =
     (case churn_release (churn_idx w) pool (w\<lparr>rng_state := snd (xorshift64 (rng_state w))\<rparr>) of
        Inl e \<Rightarrow> Inl e
      | Inr (pool1, w1) \<Rightarrow> churn_fill i (churn_idx w) pool1 w1)"

function churn_loop :: "int \<Rightarrow> int \<Rightarrow> ptr list \<Rightarrow> world \<Rightarrow> error + (ptr list \<times> world)" where
  "churn_loop i rounds pool w =
     (if i < rounds
      then (case churn_body i pool w of
              Inl e \<Rightarrow> Inl e
            | Inr (pool', w') \<Rightarrow> churn_loop (i + 1) rounds pool' w')
      else Inr (pool, w))"
  by pat_completeness auto
termination
  by (relation "measure (\<lambda>(i, rounds, pool, w). nat (rounds - i))") auto

function churn_cleanup :: "int \<Rightarrow> ptr list \<Rightarrow> world \<Rightarrow> error + world" where
  "churn_cleanup i pool w =
     (if i < int POOL
      then (case free (pool ! nat i) w of
              Inl e \<Rightarrow> Inl e
            | Inr w' \<Rightarrow> churn_cleanup (i + 1) pool w')
      else Inr w)"
  by pat_completeness auto
termination
  by (relation "measure (\<lambda>(i, pool, w). nat (int POOL - i))") auto

definition phase_churn :: "int \<Rightarrow> world \<Rightarrow> error + world" where
  "phase_churn rounds w =
     (case churn_loop 0 rounds (replicate POOL NULL) w of
        Inl e \<Rightarrow> Inl e
      | Inr (pool, w1) \<Rightarrow> churn_cleanup 0 pool w1)"

subsection \<open>Phase 2: accumulate (lines 92-102)\<close>

text \<open>
  The handle array has \<open>sizeof(void *) * (size_t)count\<close> bytes, computed in 64-bit
  unsigned arithmetic, that is room for this many pointers of 8 bytes.
\<close>

definition handle_cells :: "int \<Rightarrow> nat" where
  "handle_cells count = unat ((8 :: u64) * word_of_int count) div 8"

definition accum_body :: "int \<Rightarrow> ptr \<Rightarrow> world \<Rightarrow> error + world" where
  "accum_body i out_ptrs w =
     (case rand_range 4096 65536 (rng_state w) of
        Inl e \<Rightarrow> Inl e
      | Inr (sz, rng') \<Rightarrow>
          (case malloc (Bytes (replicate (unat sz) None)) (w\<lparr>rng_state := rng'\<rparr>) of
             (p, w1) \<Rightarrow>
               (case store_handle out_ptrs i p w1 of
                  Inl e \<Rightarrow> Inl e
                | Inr w2 \<Rightarrow>
                    (case load_handle out_ptrs i w2 of
                       Inl e \<Rightarrow> Inl e
                     | Inr q \<Rightarrow> if q \<noteq> NULL then memset q 0xAB (unat sz) w2 else Inr w2))))"

function accum_loop :: "int \<Rightarrow> int \<Rightarrow> ptr \<Rightarrow> world \<Rightarrow> error + world" where
  "accum_loop i count out_ptrs w =
     (if i < count
      then (case accum_body i out_ptrs w of
              Inl e \<Rightarrow> Inl e
            | Inr w' \<Rightarrow> accum_loop (i + 1) count out_ptrs w')
      else Inr w)"
  by pat_completeness auto
termination
  by (relation "measure (\<lambda>(i, count, out_ptrs, w). nat (count - i))") auto

text \<open>The two out-parameters are returned: the handle array and the reported length.\<close>

definition phase_accumulate :: "int \<Rightarrow> world \<Rightarrow> error + (ptr \<times> int \<times> world)" where
  "phase_accumulate count w =
     (case malloc (Handles (replicate (handle_cells count) None)) w of
        (out_ptrs, w1) \<Rightarrow>
          (case accum_loop 0 count out_ptrs w1 of
             Inl e \<Rightarrow> Inl e
           | Inr w2 \<Rightarrow> Inr (out_ptrs, count, w2)))"

subsection \<open>Phase 3: fragment (lines 109-123)\<close>

definition frag_free_body :: "int \<Rightarrow> ptr \<Rightarrow> world \<Rightarrow> error + world" where
  "frag_free_body i ptrs w =
     (case load_handle ptrs i w of
        Inl e \<Rightarrow> Inl e
      | Inr p \<Rightarrow>
          (case free p w of
             Inl e \<Rightarrow> Inl e
           | Inr w1 \<Rightarrow> store_handle ptrs i NULL w1))"

function frag_free_loop :: "int \<Rightarrow> int \<Rightarrow> ptr \<Rightarrow> world \<Rightarrow> error + world" where
  "frag_free_loop i count ptrs w =
     (if i < count
      then (case frag_free_body i ptrs w of
              Inl e \<Rightarrow> Inl e
            | Inr w' \<Rightarrow> frag_free_loop (i + 2) count ptrs w')
      else Inr w)"
  by pat_completeness auto
termination
  by (relation "measure (\<lambda>(i, count, ptrs, w). nat (count - i))") auto

definition frag_alloc_body :: "int \<Rightarrow> ptr \<Rightarrow> world \<Rightarrow> error + world" where
  "frag_alloc_body i ptrs w =
     (case rand_range 128 8192 (rng_state w) of
        Inl e \<Rightarrow> Inl e
      | Inr (sz, rng') \<Rightarrow>
          (case malloc (Bytes (replicate (unat sz) None)) (w\<lparr>rng_state := rng'\<rparr>) of
             (p, w1) \<Rightarrow>
               (case store_handle ptrs i p w1 of
                  Inl e \<Rightarrow> Inl e
                | Inr w2 \<Rightarrow>
                    (case load_handle ptrs i w2 of
                       Inl e \<Rightarrow> Inl e
                     | Inr q \<Rightarrow> if q \<noteq> NULL then memset q 0xCD (unat sz) w2 else Inr w2))))"

function frag_alloc_loop :: "int \<Rightarrow> int \<Rightarrow> ptr \<Rightarrow> world \<Rightarrow> error + world" where
  "frag_alloc_loop i count ptrs w =
     (if i < count
      then (case frag_alloc_body i ptrs w of
              Inl e \<Rightarrow> Inl e
            | Inr w' \<Rightarrow> frag_alloc_loop (i + 2) count ptrs w')
      else Inr w)"
  by pat_completeness auto
termination
  by (relation "measure (\<lambda>(i, count, ptrs, w). nat (count - i))") auto

definition phase_fragment :: "ptr \<Rightarrow> int \<Rightarrow> world \<Rightarrow> error + world" where
  "phase_fragment ptrs count w =
     (case frag_free_loop 1 count ptrs w of
        Inl e \<Rightarrow> Inl e
      | Inr w1 \<Rightarrow> frag_alloc_loop 1 count ptrs w1)"

subsection \<open>The driver (lines 131-141, 197, 204-211)\<close>

text \<open>
  \<open>atoi\<close> is the C library's. It skips white space, reads an optional sign and then
  decimal digits up to the first character that is not one, and gives 0 when there is no
  digit: \<open>decimal_value\<close> is the number so written. The result of \<open>atoi\<close> is an
  \<open>int\<close> of 32 bits: in the library of the platform (glibc) it is
  \<open>(int) strtol(nptr, NULL, 10)\<close>, where \<open>strtol\<close> gives the number written, held to the
  range of a 64-bit \<open>long\<close>, and the conversion to \<open>int\<close> keeps the low 32 bits in two's
  complement.
\<close>

definition isspace :: "char \<Rightarrow> bool" where
  "isspace c = (of_char c = (32::nat) \<or> ((9::nat) \<le> of_char c \<and> of_char c \<le> (13::nat)))"

definition isdigit :: "char \<Rightarrow> bool" where
  "isdigit c = ((48::nat) \<le> of_char c \<and> of_char c \<le> (57::nat))"

fun digits_val :: "int \<Rightarrow> string \<Rightarrow> int" where
  "digits_val acc [] = acc"
| "digits_val acc (c # cs) =
     (if isdigit c then digits_val (10 * acc + (int (of_char c) - 48)) cs else acc)"

definition decimal_value :: "string \<Rightarrow> int" where
  "decimal_value s =
     (case dropWhile isspace s of
        [] \<Rightarrow> 0
      | c # cs \<Rightarrow>
          if c = CHR ''-'' then - digits_val 0 cs
          else if c = CHR ''+'' then digits_val 0 cs
          else digits_val 0 (c # cs))"

definition strtol :: "string \<Rightarrow> int" where
  "strtol s = max (- (2 ^ 63)) (min (2 ^ 63 - 1) (decimal_value s))"

definition long_to_int :: "int \<Rightarrow> int" where
  "long_to_int v = (v + 2 ^ 31) mod 2 ^ 32 - 2 ^ 31"

definition atoi :: "string \<Rightarrow> int" where
  "atoi s = long_to_int (strtol s)"

text \<open>
  Lines 132-134: the value of \<open>rounds\<close> before the clamp; \<open>argv\<close> holds the program
  name and the arguments, \<open>argc\<close> is its length.
\<close>

definition requested_rounds :: "string list \<Rightarrow> int" where
  "requested_rounds argv = (if length argv > 1 then atoi (argv ! 1) else 500000)"

text \<open>C's division truncates towards zero.\<close>

definition c_div :: "int \<Rightarrow> int \<Rightarrow> int" where
  "c_div a b = sgn a * sgn b * (\<bar>a\<bar> div \<bar>b\<bar>)"

record config =
  churn_rounds :: int
  accumulation_count :: int
  total_alloc_ops :: int

text \<open>
  Lines 135-140 and 197, from the value \<open>r\<close> of \<open>rounds\<close> after line 134. The operation
  count is computed in \<open>double\<close>; every value involved is an integer below \<open>2 ^ 53\<close>, so
  the sum is exact and is given as an integer.
\<close>

definition main_config :: "int \<Rightarrow> config" where
  "main_config r =
     (let rounds = (if r < 1000 then 1000 else r);
          accum_count = c_div rounds 50;
          accum_count = (if accum_count < 100 then 100 else accum_count)
      in \<lparr>churn_rounds = rounds, accumulation_count = accum_count,
          total_alloc_ops = rounds + accum_count * 3\<rparr>)"

definition main_rounds :: "string list \<Rightarrow> int" where
  "main_rounds argv = churn_rounds (main_config (requested_rounds argv))"

text \<open>
  Lines 204-211: the ratio that is printed, \<open>None\<close> when the section is skipped. The
  two readings are \<open>long\<close> values returned by \<open>read_rss_kb\<close>, which reads them from
  \<open>/proc/self/status\<close> (0 when that fails); they are parameters here, as the probe and the
  clock are input of the program. The quotient of the two \<open>double\<close> conversions is given
  as the real quotient (C rounds it to the nearest \<open>double\<close>).
\<close>

definition frag_ratio :: "int \<Rightarrow> int \<Rightarrow> real option" where
  "frag_ratio rss_after_accum rss_after_frag =
     (if rss_after_accum > 0 \<and> rss_after_frag > 0
      then Some (real_of_int rss_after_frag / real_of_int rss_after_accum)
      else None)"

subsection \<open>Predicates of the statements and the loop invariants\<close>

text \<open>
  Block identities are never reused, so the buffers allocated since the state \<open>w0\<close> are
  the blocks whose identity is not below the size of the table of \<open>w0\<close>; \<open>phase_live w0 w\<close>
  is the set of those that are live in \<open>w\<close>.
\<close>

definition phase_live :: "world \<Rightarrow> world \<Rightarrow> nat set" where
  "phase_live w0 w =
     set (filter (\<lambda>b. lookup w b \<noteq> None) [length (heap w0)..<length (heap w)])"

text \<open>The state of the program at start: the seed of line 23, nothing allocated.\<close>

definition init_world :: "(nat \<Rightarrow> bool) \<Rightarrow> world" where
  "init_world ok = \<lparr>rng_state = rng_seed, heap = [], malloc_calls = 0, malloc_ok = ok\<rparr>"

text \<open>
  The invariant of the churn loop: the slots hold distinct live buffers of the phase, and
  every live buffer of the phase is held by a slot.
\<close>

definition churn_inv :: "world \<Rightarrow> ptr list \<Rightarrow> world \<Rightarrow> bool" where
  "churn_inv w0 pool w \<longleftrightarrow>
     length pool = POOL \<and> length (heap w0) \<le> length (heap w) \<and>
     (\<forall>b < length (heap w0). lookup w b = lookup w0 b) \<and>
     (\<forall>j < POOL. \<forall>b. pool ! j = Blk b \<longrightarrow> length (heap w0) \<le> b \<and> lookup w b \<noteq> None) \<and>
     (\<forall>j < POOL. \<forall>k < POOL. pool ! j = pool ! k \<and> pool ! j \<noteq> NULL \<longrightarrow> j = k) \<and>
     (\<forall>b. length (heap w0) \<le> b \<and> lookup w b \<noteq> None \<longrightarrow> Blk b \<in> set pool)"

text \<open>The invariant of the final loop of the churn phase, before slot \<open>i\<close> is freed.\<close>

definition cleanup_inv :: "world \<Rightarrow> ptr list \<Rightarrow> nat \<Rightarrow> world \<Rightarrow> bool" where
  "cleanup_inv w0 pool i w \<longleftrightarrow>
     length pool = POOL \<and>
     (\<forall>b < length (heap w0). lookup w b = lookup w0 b) \<and>
     (\<forall>j < POOL. \<forall>b. pool ! j = Blk b \<longrightarrow>
        length (heap w0) \<le> b \<and> (lookup w b \<noteq> None \<longleftrightarrow> i \<le> j)) \<and>
     (\<forall>j < POOL. \<forall>k < POOL. pool ! j = pool ! k \<and> pool ! j \<noteq> NULL \<longrightarrow> j = k) \<and>
     (\<forall>b. length (heap w0) \<le> b \<and> lookup w b \<noteq> None \<longrightarrow> Blk b \<in> set pool)"


text \<open>The two kinds of mixing step of \<open>xorshift64\<close>, for the proof that it is injective.\<close>

definition mix_left :: "nat \<Rightarrow> u64 \<Rightarrow> u64" where
  "mix_left k x = x XOR push_bit k x"

definition mix_right :: "nat \<Rightarrow> u64 \<Rightarrow> u64" where
  "mix_right k x = x XOR drop_bit k x"

text \<open>
  Lines 97-100 and 118-121 are the same code up to the bounds of the size and the
  sentinel; this is their common shape, used to prove their effect once.
\<close>

definition alloc_into :: "u64 \<Rightarrow> u64 \<Rightarrow> byte \<Rightarrow> int \<Rightarrow> ptr \<Rightarrow> world \<Rightarrow> error + world" where
  "alloc_into lo hi c i ptrs w =
     (case rand_range lo hi (rng_state w) of
        Inl e \<Rightarrow> Inl e
      | Inr (sz, rng') \<Rightarrow>
          (case malloc (Bytes (replicate (unat sz) None)) (w\<lparr>rng_state := rng'\<rparr>) of
             (p, w1) \<Rightarrow>
               (case store_handle ptrs i p w1 of
                  Inl e \<Rightarrow> Inl e
                | Inr w2 \<Rightarrow>
                    (case load_handle ptrs i w2 of
                       Inl e \<Rightarrow> Inl e
                     | Inr q \<Rightarrow> if q \<noteq> NULL then memset q c (unat sz) w2 else Inr w2))))"

text \<open>
  A live buffer whose size lies in \<open>[lo, hi)\<close> and whose every byte is \<open>c\<close>, and the
  content of the handle array behind a pointer.
\<close>

definition filled_buffer :: "world \<Rightarrow> nat \<Rightarrow> nat \<Rightarrow> nat \<Rightarrow> byte \<Rightarrow> bool" where
  "filled_buffer w b lo hi c =
     (case lookup w b of
        Some (Bytes bs) \<Rightarrow> lo \<le> length bs \<and> length bs < hi \<and> bs = replicate (length bs) (Some c)
      | _ \<Rightarrow> False)"

definition handles_of :: "world \<Rightarrow> ptr \<Rightarrow> ptr option list" where
  "handles_of w p =
     (case p of
        NULL \<Rightarrow> []
      | Blk a \<Rightarrow> (case lookup w a of Some (Handles cs) \<Rightarrow> cs | _ \<Rightarrow> []))"

text \<open>
  The invariant of the accumulate loop before iteration \<open>i\<close>: the handle array is the
  first block allocated since \<open>w0\<close>, entry \<open>j < i\<close> is null when the call of \<open>malloc\<close>
  for it failed and a filled buffer otherwise, and the buffers are distinct.
\<close>

definition accum_inv :: "world \<Rightarrow> nat \<Rightarrow> nat \<Rightarrow> world \<Rightarrow> bool" where
  "accum_inv w0 n i w \<longleftrightarrow>
     (\<exists>cs. lookup w (length (heap w0)) = Some (Handles cs) \<and> length cs = n \<and>
        (\<forall>b < length (heap w0). lookup w b = lookup w0 b) \<and>
        malloc_calls w = Suc (malloc_calls w0) + i \<and> malloc_ok w = malloc_ok w0 \<and>
        (\<forall>j < i. if malloc_ok w0 (Suc (malloc_calls w0) + j)
                 then (\<exists>b. cs ! j = Some (Blk b) \<and> length (heap w0) < b \<and>
                           filled_buffer w b 4096 65536 0xAB)
                 else cs ! j = Some NULL) \<and>
        (\<forall>j < i. \<forall>k < i. cs ! j = cs ! k \<longrightarrow> cs ! j \<noteq> Some NULL \<longrightarrow> j = k))"

text \<open>
  What the fragment phase needs of its argument, and the invariants of its two loops
  relative to the handle array \<open>cs1\<close> and the state \<open>w1\<close> at entry.
\<close>

definition good_list :: "nat \<Rightarrow> ptr option list \<Rightarrow> world \<Rightarrow> bool" where
  "good_list a cs w \<longleftrightarrow>
     lookup w a = Some (Handles cs) \<and>
     (\<forall>j < length cs. cs ! j = Some NULL \<or> (\<exists>b. cs ! j = Some (Blk b) \<and> b \<noteq> a \<and> lookup w b \<noteq> None)) \<and>
     (\<forall>j < length cs. \<forall>k < length cs. cs ! j = cs ! k \<longrightarrow> cs ! j \<noteq> Some NULL \<longrightarrow> j = k)"

definition frag_free_inv :: "nat \<Rightarrow> ptr option list \<Rightarrow> world \<Rightarrow> nat \<Rightarrow> world \<Rightarrow> bool" where
  "frag_free_inv a cs1 w1 i w \<longleftrightarrow>
     length (heap w) = length (heap w1) \<and>
     malloc_calls w = malloc_calls w1 \<and> malloc_ok w = malloc_ok w1 \<and>
     lookup w a = Some (Handles (map (\<lambda>j. if odd j \<and> j < i then Some NULL else cs1 ! j)
                                   [0..<length cs1])) \<and>
     (\<forall>b. b \<noteq> a \<longrightarrow>
        lookup w b = (if \<exists>j < i. odd j \<and> j < length cs1 \<and> cs1 ! j = Some (Blk b) then None
                      else lookup w1 b))"

definition frag_alloc_inv :: "nat \<Rightarrow> ptr option list \<Rightarrow> world \<Rightarrow> nat \<Rightarrow> world \<Rightarrow> bool" where
  "frag_alloc_inv a cs1 w1 i w \<longleftrightarrow>
     (\<exists>cs. lookup w a = Some (Handles cs) \<and> length cs = length cs1 \<and>
        length (heap w1) \<le> length (heap w) \<and>
        malloc_calls w = malloc_calls w1 + i div 2 \<and> malloc_ok w = malloc_ok w1 \<and>
        (\<forall>j < length cs1. \<not> odd j \<longrightarrow> cs ! j = cs1 ! j) \<and>
        (\<forall>j < length cs1. odd j \<longrightarrow>
           (if j < i \<and> malloc_ok w1 (malloc_calls w1 + j div 2)
            then (\<exists>b. cs ! j = Some (Blk b) \<and> length (heap w1) \<le> b \<and>
                      filled_buffer w b 128 8192 0xCD)
            else cs ! j = Some NULL)) \<and>
        (\<forall>b < length (heap w1). b \<noteq> a \<longrightarrow>
           lookup w b = (if \<exists>j < length cs1. odd j \<and> cs1 ! j = Some (Blk b) then None
                         else lookup w1 b)))"

section \<open>The generator\<close>

lemma unat_shl: "unat (push_bit k (x::u64)) = spec_shl k (unat x)"
proof -
  have "unat (push_bit k x) = take_bit 64 (push_bit k (unat x))"
    by (simp only: unsigned_push_bit_eq) simp
  also have "\<dots> = (unat x * 2 ^ k) mod 2 ^ 64"
    by (simp only: take_bit_eq_mod push_bit_eq_mult)
  finally show ?thesis by (simp only: spec_shl_def)
qed

lemma unat_shr: "unat (drop_bit k (x::u64)) = spec_shr k (unat x)"
proof -
  have "unat (drop_bit k x) = drop_bit k (unat x)"
    by (rule unat_drop_bit_eq)
  also have "\<dots> = unat x div 2 ^ k"
    by (simp only: drop_bit_eq_div)
  finally show ?thesis by (simp only: spec_shr_def)
qed

lemma unat_xor: "unat ((a::u64) XOR b) = unat a XOR unat b"
  by (simp add: unsigned_xor_eq)

lemma unat_xorshift64: "unat (fst (xorshift64 s)) = spec_next (unat s)"
  by (simp only: xorshift64_def spec_next_def Let_def fst_conv unat_xor unat_shl unat_shr)

lemma xorshift64_snd: "snd (xorshift64 s) = fst (xorshift64 s)"
  by (simp add: xorshift64_def Let_def)

lemma map_upt_Suc_shift: "map g [0..<Suc n] = g 0 # map (\<lambda>k. g (Suc k)) [0..<n]"
proof -
  have "[0..<Suc n] = 0 # map Suc [0..<n]"
    by (simp only: map_Suc_upt upt_conv_Cons [of 0 "Suc n"])
  then show ?thesis by (simp add: comp_def)
qed

lemma draws_spec: "map unat (draws n s) = map (\<lambda>k. (spec_next ^^ Suc k) (unat s)) [0..<n]"
proof (induction n arbitrary: s)
  case 0
  show ?case by simp
next
  case (Suc n)
  obtain x r where xr: "xorshift64 s = (x, r)" by (cases "xorshift64 s")
  have r: "r = x" using xorshift64_snd [of s] xr by simp
  have x: "unat x = spec_next (unat s)" using unat_xorshift64 [of s] xr by simp
  have "map unat (draws (Suc n) s) = unat x # map unat (draws n x)"
    using xr r by simp
  also have "\<dots> = spec_next (unat s) # map (\<lambda>k. (spec_next ^^ Suc k) (spec_next (unat s))) [0..<n]"
    using Suc.IH [of x] x by simp
  also have "\<dots> = map (\<lambda>k. (spec_next ^^ Suc k) (unat s)) [0..<Suc n]"
    by (simp only: map_upt_Suc_shift [of _ n] funpow_Suc_right comp_def) simp
  finally show ?case .
qed

text \<open>
  C9: \<open>xorshift64\<close> stores the value it returns as the new register, that value is the
  specified transformation (left shift by 13, right shift by 7, left shift by 17, each XORed
  into the running value) of the old register, and the first \<open>n\<close> values drawn are a
  function of the seed alone: the \<open>k\<close>-th is the transformation applied \<open>k + 1\<close> times.
\<close>

theorem xorshift64_contract:
  "snd (xorshift64 s) = fst (xorshift64 s) \<and>
   unat (fst (xorshift64 s)) = spec_next (unat s) \<and>
   map unat (draws n s) = map (\<lambda>k. (spec_next ^^ Suc k) (unat s)) [0..<n]"
  using xorshift64_snd [of s] unat_xorshift64 [of s] draws_spec [of n s] by simp


lemma xor_cancel_mid: "((a::u64) XOR b) XOR (b XOR c) = a XOR c"
  by (auto simp add: bit_eq_iff bit_simps)

lemma mix_left_twice: "mix_left k (mix_left k x) = mix_left (2 * k) x"
  by (simp add: mix_left_def mult_2 xor_cancel_mid)

lemma mix_right_twice: "mix_right k (mix_right k x) = mix_right (2 * k) x"
  by (simp add: mix_right_def mult_2 xor_cancel_mid)

lemma mix_left_id: "64 \<le> k \<Longrightarrow> mix_left k x = x"
  by (simp add: mix_left_def)

lemma mix_right_id: "64 \<le> k \<Longrightarrow> mix_right k x = x"
  by (simp add: mix_right_def bit_eq_iff bit_simps)

lemma inj_mix_left_13: "inj (mix_left 13)"
proof (rule inj_on_inverseI)
  fix x
  have "mix_left 13 (mix_left 13 (mix_left 13 (mix_left 13
          (mix_left 13 (mix_left 13 (mix_left 13 (mix_left 13 x))))))) = x"
    by (simp add: mix_left_twice mix_left_id)
  then show "(mix_left 13 ^^ 7) (mix_left 13 x) = x" by (simp add: numeral_eq_Suc)
qed

lemma inj_mix_left_17: "inj (mix_left 17)"
proof (rule inj_on_inverseI)
  fix x
  have "mix_left 17 (mix_left 17 (mix_left 17 (mix_left 17 x))) = x"
    by (simp add: mix_left_twice mix_left_id)
  then show "(mix_left 17 ^^ 3) (mix_left 17 x) = x" by (simp add: numeral_eq_Suc)
qed

lemma inj_mix_right_7: "inj (mix_right 7)"
proof (rule inj_on_inverseI)
  fix x
  have "mix_right 7 (mix_right 7 (mix_right 7 (mix_right 7
         (mix_right 7 (mix_right 7 (mix_right 7 (mix_right 7
         (mix_right 7 (mix_right 7 (mix_right 7 (mix_right 7
         (mix_right 7 (mix_right 7 (mix_right 7 (mix_right 7 x))))))))))))))) = x"
    by (simp add: mix_right_twice mix_right_id)
  then show "(mix_right 7 ^^ 15) (mix_right 7 x) = x" by (simp add: numeral_eq_Suc)
qed

lemma xorshift64_mix: "fst (xorshift64 s) = mix_left 17 (mix_right 7 (mix_left 13 s))"
  by (simp add: xorshift64_def mix_left_def mix_right_def Let_def)

lemma inj_xorshift64: "inj (\<lambda>s. fst (xorshift64 s))"
proof -
  have "(\<lambda>s. fst (xorshift64 s)) = mix_left 17 \<circ> (mix_right 7 \<circ> mix_left 13)"
    by (simp add: fun_eq_iff xorshift64_mix)
  then show ?thesis
    using inj_mix_left_13 inj_mix_left_17 inj_mix_right_7 by (simp add: inj_compose)
qed

lemma xorshift64_zero: "fst (xorshift64 0) = 0"
  by (simp add: xorshift64_def)

lemma xorshift64_zero_iff: "fst (xorshift64 s) = 0 \<longleftrightarrow> s = 0"
proof
  assume "fst (xorshift64 s) = 0"
  then have "fst (xorshift64 s) = fst (xorshift64 0)" by (simp add: xorshift64_zero)
  then show "s = 0" using inj_xorshift64 by (simp add: inj_def)
next
  assume "s = 0"
  then show "fst (xorshift64 s) = 0" by (simp add: xorshift64_zero)
qed

lemma rng_after_nonzero: "s \<noteq> 0 \<Longrightarrow> rng_after n s \<noteq> 0"
proof (induction n arbitrary: s)
  case 0
  then show ?case by simp
next
  case (Suc n)
  have "snd (xorshift64 s) \<noteq> 0" using Suc.prems by (simp add: xorshift64_snd xorshift64_zero_iff)
  then show ?case using Suc.IH by simp
qed

lemma draws_nonzero: "s \<noteq> 0 \<Longrightarrow> 0 \<notin> set (draws n s)"
proof (induction n arbitrary: s)
  case 0
  show ?case by simp
next
  case (Suc n)
  obtain x r where xr: "xorshift64 s = (x, r)" by (cases "xorshift64 s")
  have r: "r = x" using xorshift64_snd [of s] xr by simp
  have x: "x \<noteq> 0" using Suc.prems xorshift64_zero_iff [of s] xr by simp
  show ?case using Suc.IH [OF x] xr r x by simp
qed

lemma rng_seed_nonzero: "rng_seed \<noteq> 0"
  by (simp add: rng_seed_def)

text \<open>
  C10: the step of \<open>xorshift64\<close> is injective and maps only zero to zero, so from the
  nonzero seed of line 23 the register is never zero and no draw is zero.
\<close>

theorem xorshift64_never_zero:
  "inj (\<lambda>s. fst (xorshift64 s)) \<and>
   (fst (xorshift64 s) = 0 \<longleftrightarrow> s = 0) \<and>
   rng_after n rng_seed \<noteq> 0 \<and>
   0 \<notin> set (draws n rng_seed)"
  using inj_xorshift64 xorshift64_zero_iff [of s] rng_after_nonzero [OF rng_seed_nonzero, of n]
    draws_nonzero [OF rng_seed_nonzero, of n]
  by simp

lemma rand_range_bounds:
  fixes lo hi x :: u64
  assumes "lo < hi"
  shows "lo \<le> lo + x mod (hi - lo) \<and> lo + x mod (hi - lo) < hi"
proof -
  let ?d = "hi - lo"
  let ?r = "x mod ?d"
  have d: "unat ?d = unat hi - unat lo"
    using assms by (simp add: unat_sub word_less_nat_alt word_le_nat_alt)
  have lt: "unat lo < unat hi" using assms by (simp add: word_less_nat_alt)
  have "0 < ?d" using d lt by (simp add: word_less_nat_alt)
  then have "?r < ?d" by (rule word_mod_less_divisor)
  then have r: "unat ?r < unat hi - unat lo" using d by (simp add: word_less_nat_alt)
  have hi: "unat hi < 2 ^ 64" using unsigned_less [of hi] by simp
  have "unat lo + unat ?r < 2 ^ LENGTH(64)" using r lt hi by simp
  then have s: "unat (lo + ?r) = unat lo + unat ?r" by (simp only: unat_add_lem)
  show ?thesis using s r lt by (simp add: word_less_nat_alt word_le_nat_alt)
qed

lemma rand_range_value:
  assumes "lo < hi"
  shows "rand_range lo hi rng =
           Inr (lo + fst (xorshift64 rng) mod (hi - lo), snd (xorshift64 rng))"
proof -
  have "hi - lo \<noteq> 0" using assms by simp
  then show ?thesis by (simp add: rand_range_def split: prod.splits)
qed

lemma rand_range_ok:
  assumes "lo < hi"
  shows "\<exists>sz. rand_range lo hi rng = Inr (sz, snd (xorshift64 rng)) \<and> lo \<le> sz \<and> sz < hi"
  using rand_range_value [OF assms, of rng] rand_range_bounds [OF assms] by blast

text \<open>
  C3: for \<open>lo < hi\<close>, \<open>rand_range lo hi\<close> advances the register by exactly one call of
  \<open>xorshift64\<close>, returns \<open>lo\<close> plus the value drawn modulo \<open>hi - lo\<close>, and the result
  lies in \<open>[lo, hi)\<close>.
\<close>

theorem rand_range_in_range:
  assumes "lo < hi"
  shows "rand_range lo hi rng =
           Inr (lo + fst (xorshift64 rng) mod (hi - lo), snd (xorshift64 rng)) \<and>
         lo \<le> lo + fst (xorshift64 rng) mod (hi - lo) \<and>
         lo + fst (xorshift64 rng) mod (hi - lo) < hi"
  using rand_range_value [OF assms, of rng] rand_range_bounds [OF assms] by blast

theorem rand_range_in_range_witness:
  "(64::u64) < 4096 \<and> rand_range 64 4096 rng_seed = Inr (3152, 2872300871512351504) \<and>
   (64::u64) \<le> 3152 \<and> (3152::u64) < 4096"
proof -
  have h: "(64::u64) < 4096" by simp
  have v: "xorshift64 rng_seed = (2872300871512351504, 2872300871512351504)"
    by (simp add: xorshift64_def rng_seed_def Let_def)
  show ?thesis using rand_range_in_range [OF h, of rng_seed] v by simp
qed

section \<open>Memory operations\<close>

lemma lookup_live_less: "lookup w b \<noteq> None \<Longrightarrow> b < length (heap w)"
  by (simp add: lookup_def split: if_splits)

lemma live_blocks_eq: "live_blocks w = {b. lookup w b \<noteq> None}"
  using lookup_live_less [of w] by (auto simp: live_blocks_def)

lemma phase_live_eq: "phase_live w0 w = {b. length (heap w0) \<le> b \<and> lookup w b \<noteq> None}"
  using lookup_live_less [of w] by (auto simp: phase_live_def)

lemma malloc_fail:
  "\<not> malloc_ok w (malloc_calls w) \<Longrightarrow>
     malloc blk w = (NULL, w\<lparr>malloc_calls := Suc (malloc_calls w)\<rparr>)"
  by (simp add: malloc_def)

lemma malloc_succ:
  "malloc_ok w (malloc_calls w) \<Longrightarrow>
     malloc blk w = (Blk (length (heap w)),
       w\<lparr>heap := heap w @ [Some blk], malloc_calls := Suc (malloc_calls w)\<rparr>)"
  by (simp add: malloc_def)

lemma memset_bytes:
  "lookup w b = Some (Bytes bs) \<Longrightarrow> n \<le> length bs \<Longrightarrow>
     memset (Blk b) c n w =
       Inr (w\<lparr>heap := (heap w)[b := Some (Bytes (replicate n (Some c) @ drop n bs))]\<rparr>)"
  by (simp add: memset_def)

section \<open>The churn phase\<close>

lemma churn_inv_uniq:
  "churn_inv w0 pool w \<Longrightarrow> j < POOL \<Longrightarrow> k < POOL \<Longrightarrow> pool ! j = pool ! k \<Longrightarrow>
     pool ! j \<noteq> NULL \<Longrightarrow> j = k"
  unfolding churn_inv_def by blast

lemma churn_inv_len: "churn_inv w0 pool w \<Longrightarrow> length pool = POOL"
  unfolding churn_inv_def by blast

lemma churn_inv_grow: "churn_inv w0 pool w \<Longrightarrow> length (heap w0) \<le> length (heap w)"
  unfolding churn_inv_def by blast

lemma churn_inv_frame:
  "churn_inv w0 pool w \<Longrightarrow> b < length (heap w0) \<Longrightarrow> lookup w b = lookup w0 b"
  unfolding churn_inv_def by blast

lemma churn_inv_blk:
  "churn_inv w0 pool w \<Longrightarrow> j < POOL \<Longrightarrow> pool ! j = Blk b \<Longrightarrow>
     length (heap w0) \<le> b \<and> lookup w b \<noteq> None"
  unfolding churn_inv_def by blast

lemma churn_inv_held:
  "churn_inv w0 pool w \<Longrightarrow> length (heap w0) \<le> b \<Longrightarrow> lookup w b \<noteq> None \<Longrightarrow>
     Blk b \<in> set pool"
  unfolding churn_inv_def by blast

lemma churn_inv_heap_eq:
  assumes "churn_inv w0 pool w" and eq: "heap w' = heap w"
  shows "churn_inv w0 pool w'"
  using assms(1) unfolding churn_inv_def lookup_def eq .

lemma churn_idx_less: "churn_idx w < POOL"
proof -
  have "fst (xorshift64 (rng_state w)) mod 2048 < (2048 :: u64)"
    by (rule word_mod_less_divisor) simp
  then show ?thesis by (simp add: churn_idx_def POOL_def word_less_nat_alt)
qed

lemma churn_release_inv:
  assumes inv: "churn_inv w0 pool w" and idx: "idx < POOL"
  shows "\<exists>w1. churn_release idx pool w = Inr (pool[idx := NULL], w1) \<and>
           churn_inv w0 (pool[idx := NULL]) w1 \<and>
           (\<forall>b. pool ! idx = Blk b \<longrightarrow> lookup w1 b = None) \<and>
           phase_live w0 w1 \<subseteq> phase_live w0 w"
proof (cases "pool ! idx")
  case NULL
  then have "pool[idx := NULL] = pool" by (metis list_update_id)
  with NULL inv show ?thesis by (simp add: churn_release_def)
next
  case (Blk b)
  have len: "length pool = POOL" using inv by (rule churn_inv_len)
  have live: "lookup w b \<noteq> None" and ge: "length (heap w0) \<le> b"
    using churn_inv_blk [OF inv idx Blk] by simp_all
  have bl: "b < length (heap w)" using live by (rule lookup_live_less)
  obtain w1 where rel: "churn_release idx pool w = Inr (pool[idx := NULL], w1)"
    and h1: "heap w1 = (heap w)[b := None]"
    using Blk live by (simp add: churn_release_def free_def)
  have lk1: "lookup w1 c = (if c = b then None else lookup w c)" for c
    using bl by (simp add: lookup_def h1)
  have uniq: "j = idx" if "j < POOL" "pool ! j = Blk b" for j
    using churn_inv_uniq [OF inv that(1) idx] that(2) Blk by simp
  have inv1: "churn_inv w0 (pool[idx := NULL]) w1"
    unfolding churn_inv_def
  proof (intro conjI allI impI)
    show "length (pool[idx := NULL]) = POOL" using len by simp
    show "length (heap w0) \<le> length (heap w1)" using churn_inv_grow [OF inv] by (simp add: h1)
    show "lookup w1 c = lookup w0 c" if "c < length (heap w0)" for c
      using churn_inv_frame [OF inv that] that ge by (simp add: lk1)
    show "length (heap w0) \<le> c" if "j < POOL" "pool[idx := NULL] ! j = Blk c" for j c
    proof -
      have ji: "j \<noteq> idx" using that len by auto
      then have pj: "pool ! j = Blk c" using that by simp
      show ?thesis using churn_inv_blk [OF inv that(1) pj] by simp
    qed
    show "lookup w1 c \<noteq> None" if "j < POOL" "pool[idx := NULL] ! j = Blk c" for j c
    proof -
      have ji: "j \<noteq> idx" using that len by auto
      then have pj: "pool ! j = Blk c" using that by simp
      then have "c \<noteq> b" using uniq that ji by auto
      moreover have "lookup w c \<noteq> None" using churn_inv_blk [OF inv that(1) pj] by simp
      ultimately show ?thesis by (simp add: lk1)
    qed
    show "j = k" if "j < POOL" "k < POOL"
        "pool[idx := NULL] ! j = pool[idx := NULL] ! k \<and> pool[idx := NULL] ! j \<noteq> NULL" for j k
    proof -
      have "j \<noteq> idx" "k \<noteq> idx" using that len by auto
      then have "pool ! j = pool ! k" "pool ! j \<noteq> NULL" using that by auto
      then show ?thesis using that(1,2) inv by (blast intro: churn_inv_uniq)
    qed
    show "Blk c \<in> set (pool[idx := NULL])" if "length (heap w0) \<le> c \<and> lookup w1 c \<noteq> None" for c
    proof -
      have cb: "c \<noteq> b" and lc: "lookup w c \<noteq> None"
        using that by (auto simp: lk1 split: if_splits)
      then have "Blk c \<in> set pool" using churn_inv_held [OF inv] that by blast
      then obtain j where j: "j < length pool" "pool ! j = Blk c" by (auto simp: in_set_conv_nth)
      then have "j \<noteq> idx" using Blk cb by auto
      then have "pool[idx := NULL] ! j = Blk c" using j by simp
      then show ?thesis using j by (metis length_list_update nth_mem)
    qed
  qed
  have "phase_live w0 w1 \<subseteq> phase_live w0 w"
    by (auto simp: phase_live_eq lk1 split: if_splits)
  moreover have "\<forall>c. pool ! idx = Blk c \<longrightarrow> lookup w1 c = None"
    using Blk by (simp add: lk1)
  ultimately show ?thesis using rel inv1 by blast
qed


lemma churn_fill_inv:
  assumes inv: "churn_inv w0 pool w" and idx: "idx < POOL" and empty: "pool ! idx = NULL"
  shows "\<exists>pool2 w2. churn_fill i idx pool w = Inr (pool2, w2) \<and> churn_inv w0 pool2 w2"
proof -
  obtain sz where rr: "rand_range 64 4096 (rng_state w) = Inr (sz, snd (xorshift64 (rng_state w)))"
    using rand_range_ok [of 64 4096 "rng_state w"] by auto
  let ?wr = "w\<lparr>rng_state := snd (xorshift64 (rng_state w))\<rparr>"
  have len: "length pool = POOL" using inv by (rule churn_inv_len)
  show ?thesis
  proof (cases "malloc_ok w (malloc_calls w)")
    case False
    have "pool[idx := NULL] = pool" using empty by (metis list_update_id)
    moreover have "churn_inv w0 pool (?wr\<lparr>malloc_calls := Suc (malloc_calls w)\<rparr>)"
      using inv by (rule churn_inv_heap_eq) simp
    ultimately show ?thesis using False rr by (simp add: churn_fill_def malloc_def)
  next
    case True
    let ?n = "length (heap w)"
    let ?blk = "Bytes (replicate (unat sz) (Some (word_of_int (i AND 255))))"
    have "\<exists>w2. churn_fill i idx pool w = Inr (pool[idx := Blk ?n], w2) \<and>
             heap w2 = heap w @ [Some ?blk]"
    proof -
      let ?w1 = "w\<lparr>rng_state := snd (xorshift64 (rng_state w)),
                    heap := heap w @ [Some (Bytes (replicate (unat sz) None))],
                    malloc_calls := Suc (malloc_calls w)\<rparr>"
      have m: "malloc (Bytes (replicate (unat sz) None)) ?wr = (Blk ?n, ?w1)"
        using True by (simp add: malloc_succ)
      have l1: "lookup ?w1 ?n = Some (Bytes (replicate (unat sz) None))"
        by (simp add: lookup_def)
      have ms: "memset (Blk ?n) (word_of_int (i AND 255)) (unat sz) ?w1 =
          Inr (?w1\<lparr>heap := (heap ?w1)[?n := Some ?blk]\<rparr>)"
        using memset_bytes [OF l1, of "unat sz"] by simp
      show ?thesis unfolding churn_fill_def rr using m ms by simp
    qed
    then obtain w2 where fill: "churn_fill i idx pool w = Inr (pool[idx := Blk ?n], w2)"
      and h2: "heap w2 = heap w @ [Some ?blk]" by blast
    have lk: "lookup w2 c = (if c = ?n then Some ?blk else lookup w c)" for c
      by (simp add: lookup_def h2 nth_append)
    have fresh: "Blk ?n \<notin> set pool"
    proof
      assume "Blk ?n \<in> set pool"
      then obtain j where "j < POOL" "pool ! j = Blk ?n" using len by (auto simp: in_set_conv_nth)
      then have "lookup w ?n \<noteq> None" using churn_inv_blk [OF inv] by blast
      then show False by (simp add: lookup_def)
    qed
    have inv2: "churn_inv w0 (pool[idx := Blk ?n]) w2"
      unfolding churn_inv_def
    proof (intro conjI allI impI)
      show "length (pool[idx := Blk ?n]) = POOL" using len by simp
      show "length (heap w0) \<le> length (heap w2)" using churn_inv_grow [OF inv] by (simp add: h2)
      show "lookup w2 c = lookup w0 c" if "c < length (heap w0)" for c
        using churn_inv_frame [OF inv that] churn_inv_grow [OF inv] that by (simp add: lk)
      show "length (heap w0) \<le> c" if "j < POOL" "pool[idx := Blk ?n] ! j = Blk c" for j c
      proof (cases "j = idx")
        case True
        then show ?thesis using that len churn_inv_grow [OF inv] by simp
      next
        case False
        then have "pool ! j = Blk c" using that by simp
        then show ?thesis using churn_inv_blk [OF inv that(1)] by simp
      qed
      show "lookup w2 c \<noteq> None" if "j < POOL" "pool[idx := Blk ?n] ! j = Blk c" for j c
      proof (cases "j = idx")
        case True
        then show ?thesis using that len by (simp add: lk)
      next
        case False
        then have "pool ! j = Blk c" using that by simp
        then show ?thesis using churn_inv_blk [OF inv that(1)] by (simp add: lk)
      qed
      show "j = k" if "j < POOL" "k < POOL"
        "pool[idx := Blk ?n] ! j = pool[idx := Blk ?n] ! k \<and> pool[idx := Blk ?n] ! j \<noteq> NULL" for j k
      proof (cases "j = idx")
        case True
        then have "pool[idx := Blk ?n] ! k = Blk ?n" using that len by simp
        then show ?thesis using fresh True that len by (cases "k = idx") (auto simp: in_set_conv_nth)
      next
        case False
        show ?thesis
        proof (cases "k = idx")
          case True
          then have "pool ! j = Blk ?n" using that len False by simp
          then show ?thesis using fresh that len by (auto simp: in_set_conv_nth)
        next
          case k: False
          then have "pool ! j = pool ! k" "pool ! j \<noteq> NULL" using False that by auto
          then show ?thesis using that(1,2) inv by (blast intro: churn_inv_uniq)
        qed
      qed
      show "Blk c \<in> set (pool[idx := Blk ?n])"
        if "length (heap w0) \<le> c \<and> lookup w2 c \<noteq> None" for c
      proof (cases "c = ?n")
        case True
        then show ?thesis using idx len by (simp add: set_update_memI)
      next
        case False
        then have "lookup w c \<noteq> None" using that by (simp add: lk)
        then have "Blk c \<in> set pool" using churn_inv_held [OF inv] that by blast
        then obtain j where j: "j < length pool" "pool ! j = Blk c" by (auto simp: in_set_conv_nth)
        then have "j \<noteq> idx" using empty by auto
        then have "pool[idx := Blk ?n] ! j = Blk c" using j by simp
        then show ?thesis using j by (metis length_list_update nth_mem)
      qed
    qed
    show ?thesis using fill inv2 by blast
  qed
qed


lemma churn_body_inv:
  assumes inv: "churn_inv w0 pool w"
  shows "\<exists>pool' w'. churn_body i pool w = Inr (pool', w') \<and> churn_inv w0 pool' w'"
proof -
  let ?wr = "w\<lparr>rng_state := snd (xorshift64 (rng_state w))\<rparr>"
  let ?idx = "churn_idx w"
  have "churn_inv w0 pool ?wr" using inv by (rule churn_inv_heap_eq) simp
  then obtain w1 where rel: "churn_release ?idx pool ?wr = Inr (pool[?idx := NULL], w1)"
    and inv1: "churn_inv w0 (pool[?idx := NULL]) w1"
    using churn_release_inv [OF _ churn_idx_less] by blast
  have "length pool = POOL" using inv by (rule churn_inv_len)
  then have "pool[?idx := NULL] ! ?idx = NULL" using churn_idx_less [of w] by simp
  then obtain pool2 w2 where "churn_fill i ?idx (pool[?idx := NULL]) w1 = Inr (pool2, w2)"
    and "churn_inv w0 pool2 w2"
    using churn_fill_inv [OF inv1 churn_idx_less] by blast
  then show ?thesis using rel by (simp add: churn_body_def)
qed

lemma churn_loop_inv:
  "churn_inv w0 pool w \<Longrightarrow>
     \<exists>pool' w'. churn_loop i rounds pool w = Inr (pool', w') \<and> churn_inv w0 pool' w'"
proof (induction i rounds pool w rule: churn_loop.induct)
  case (1 i rounds pool w)
  show ?case
  proof (cases "i < rounds")
    case False
    then show ?thesis using "1.prems" by simp
  next
    case True
    obtain pool1 w1 where b: "churn_body i pool w = Inr (pool1, w1)" and inv1: "churn_inv w0 pool1 w1"
      using churn_body_inv [OF "1.prems"] by blast
    have "\<exists>pool' w'. churn_loop (i + 1) rounds pool1 w1 = Inr (pool', w') \<and> churn_inv w0 pool' w'"
      using "1.IH" [OF True b refl inv1] .
    then show ?thesis using True b by simp
  qed
qed

lemma churn_loop_split:
  "i \<le> k \<Longrightarrow> k \<le> rounds \<Longrightarrow>
     churn_loop i rounds pool w =
       (case churn_loop i k pool w of
          Inl e \<Rightarrow> Inl e
        | Inr (pool', w') \<Rightarrow> churn_loop k rounds pool' w')"
proof (induction i k pool w rule: churn_loop.induct)
  case (1 i k pool w)
  show ?case
  proof (cases "i < k")
    case False
    then have "i = k" using "1.prems" by simp
    then show ?thesis by simp
  next
    case True
    then have lt: "i < rounds" and le: "i + 1 \<le> k" using "1.prems" by simp_all
    show ?thesis
    proof (cases "churn_body i pool w")
      case (Inl e)
      then show ?thesis using True lt by simp
    next
      case (Inr r)
      obtain pool1 w1 where r: "r = (pool1, w1)" by (cases r)
      have "churn_loop (i + 1) rounds pool1 w1 =
         (case churn_loop (i + 1) k pool1 w1 of
            Inl e \<Rightarrow> Inl e
          | Inr (pool', w') \<Rightarrow> churn_loop k rounds pool' w')"
        using "1.IH" [OF True _ refl le "1.prems"(2)] Inr r by simp
      then show ?thesis using True lt Inr r by simp
    qed
  qed
qed

lemma churn_inv_init: "churn_inv w0 (replicate POOL NULL) w0"
  by (simp add: churn_inv_def lookup_def)

lemma churn_inv_live:
  assumes inv: "churn_inv w0 pool w"
  shows "phase_live w0 w = {b. Blk b \<in> set pool}"
proof -
  have "length (heap w0) \<le> b \<and> lookup w b \<noteq> None" if mem: "Blk b \<in> set pool" for b
  proof -
    obtain j where "j < POOL" "pool ! j = Blk b"
      using mem churn_inv_len [OF inv] by (auto simp: in_set_conv_nth)
    then show ?thesis using churn_inv_blk [OF inv] by blast
  qed
  then show ?thesis using churn_inv_held [OF inv] by (auto simp: phase_live_eq)
qed

lemma card_pool_blocks: "card {b. Blk b \<in> set pool} \<le> length pool"
proof -
  let ?f = "\<lambda>p. case p of NULL \<Rightarrow> 0 | Blk b \<Rightarrow> b"
  have "{b. Blk b \<in> set pool} \<subseteq> ?f ` set pool" by force
  then have "card {b. Blk b \<in> set pool} \<le> card (?f ` set pool)"
    by (rule card_mono [rotated]) simp
  also have "\<dots> \<le> card (set pool)" by (rule card_image_le) simp
  also have "\<dots> \<le> length pool" by (rule card_length)
  finally show ?thesis .
qed

lemma churn_inv_card: "churn_inv w0 pool w \<Longrightarrow> card (phase_live w0 w) \<le> 2048"
  using card_pool_blocks [of pool] by (simp add: churn_inv_live churn_inv_len POOL_def)


lemma cleanup_inv_start: "churn_inv w0 pool w \<Longrightarrow> cleanup_inv w0 pool 0 w"
  unfolding churn_inv_def cleanup_inv_def by blast

lemma cleanup_inv_step:
  assumes inv: "cleanup_inv w0 pool i w" and i: "i < POOL"
  shows "\<exists>w'. free (pool ! i) w = Inr w' \<and> cleanup_inv w0 pool (Suc i) w'"
proof (cases "pool ! i")
  case NULL
  have "cleanup_inv w0 pool (Suc i) w"
    unfolding cleanup_inv_def
  proof (intro conjI allI impI)
    show "(lookup w b \<noteq> None) = (Suc i \<le> j)" if "j < POOL" "pool ! j = Blk b" for j b
    proof -
      have "j \<noteq> i" using that NULL by auto
      moreover have "(lookup w b \<noteq> None) = (i \<le> j)"
        using inv that unfolding cleanup_inv_def by blast
      ultimately show ?thesis by auto
    qed
  qed (use inv in \<open>unfold cleanup_inv_def, blast+\<close>)
  then show ?thesis using NULL by (simp add: free_def)
next
  case (Blk b)
  have props: "length (heap w0) \<le> b" "lookup w b \<noteq> None"
    using inv i Blk unfolding cleanup_inv_def by blast+
  have bl: "b < length (heap w)" using props(2) by (rule lookup_live_less)
  obtain w' where fr: "free (pool ! i) w = Inr w'" and h': "heap w' = (heap w)[b := None]"
    using Blk props by (simp add: free_def)
  have lk: "lookup w' c = (if c = b then None else lookup w c)" for c
    using bl by (simp add: lookup_def h')
  have uq: "j = k" if "j < POOL" "k < POOL" "pool ! j = pool ! k" "pool ! j \<noteq> NULL" for j k
    using inv that unfolding cleanup_inv_def by blast
  have "cleanup_inv w0 pool (Suc i) w'"
    unfolding cleanup_inv_def
  proof (intro conjI allI impI)
    show "length pool = POOL" using inv unfolding cleanup_inv_def by blast
    show "lookup w' c = lookup w0 c" if "c < length (heap w0)" for c
    proof -
      have "lookup w c = lookup w0 c" using inv that unfolding cleanup_inv_def by blast
      then show ?thesis using that props(1) by (simp add: lk)
    qed
    show "length (heap w0) \<le> c" if "j < POOL" "pool ! j = Blk c" for j c
      using inv that unfolding cleanup_inv_def by blast
    show "(lookup w' c \<noteq> None) = (Suc i \<le> j)" if "j < POOL" "pool ! j = Blk c" for j c
    proof (cases "j = i")
      case True
      then have "c = b" using that Blk by simp
      then show ?thesis using True by (simp add: lk)
    next
      case False
      then have "c \<noteq> b" using uq [OF that(1) i] that Blk by auto
      moreover have "(lookup w c \<noteq> None) = (i \<le> j)"
        using inv that unfolding cleanup_inv_def by blast
      ultimately show ?thesis using False by (auto simp: lk)
    qed
    show "j = k" if "j < POOL" "k < POOL" "pool ! j = pool ! k \<and> pool ! j \<noteq> NULL" for j k
      using uq that by blast
    show "Blk c \<in> set pool" if "length (heap w0) \<le> c \<and> lookup w' c \<noteq> None" for c
    proof -
      have "lookup w c \<noteq> None" using that by (auto simp: lk split: if_splits)
      then show ?thesis using inv that unfolding cleanup_inv_def by blast
    qed
  qed
  then show ?thesis using fr by blast
qed

lemma churn_cleanup_inv:
  "cleanup_inv w0 pool (nat i) w \<Longrightarrow> 0 \<le> i \<Longrightarrow> i \<le> int POOL \<Longrightarrow>
     \<exists>w'. churn_cleanup i pool w = Inr w' \<and> cleanup_inv w0 pool POOL w'"
proof (induction i pool w rule: churn_cleanup.induct)
  case (1 i pool w)
  show ?case
  proof (cases "i < int POOL")
    case False
    then have "nat i = POOL" using "1.prems" by simp
    then show ?thesis using False "1.prems" by simp
  next
    case True
    then have "nat i < POOL" using "1.prems" by simp
    then obtain w1 where f: "free (pool ! nat i) w = Inr w1"
      and inv1: "cleanup_inv w0 pool (Suc (nat i)) w1"
      using cleanup_inv_step [OF "1.prems"(1)] by blast
    have "Suc (nat i) = nat (i + 1)" using "1.prems" by simp
    then have "\<exists>w'. churn_cleanup (i + 1) pool w1 = Inr w' \<and> cleanup_inv w0 pool POOL w'"
      using "1.IH" [OF True f] inv1 True "1.prems" by simp
    then show ?thesis using True f by simp
  qed
qed

lemma cleanup_inv_done:
  assumes "cleanup_inv w0 pool POOL w"
  shows "phase_live w0 w = {}"
proof -
  have "lookup w b = None" if "length (heap w0) \<le> b" for b
  proof (rule ccontr)
    assume live: "lookup w b \<noteq> None"
    then have "Blk b \<in> set pool" using assms that unfolding cleanup_inv_def by blast
    moreover have "length pool = POOL" using assms unfolding cleanup_inv_def by blast
    ultimately obtain j where "j < POOL" "pool ! j = Blk b"
      by (auto simp: in_set_conv_nth)
    then have "POOL \<le> j" using assms live unfolding cleanup_inv_def by blast
    then show False using \<open>j < POOL\<close> by simp
  qed
  then show ?thesis by (auto simp: phase_live_eq)
qed

lemma phase_churn_ok:
  "\<exists>w'. phase_churn rounds w0 = Inr w' \<and> phase_live w0 w' = {} \<and>
     (\<forall>b < length (heap w0). lookup w' b = lookup w0 b)"
proof -
  obtain pool w where l: "churn_loop 0 rounds (replicate POOL NULL) w0 = Inr (pool, w)"
    and inv: "churn_inv w0 pool w"
    using churn_loop_inv [OF churn_inv_init] by blast
  have "cleanup_inv w0 pool (nat 0) w" using cleanup_inv_start [OF inv] by simp
  then obtain w' where c: "churn_cleanup 0 pool w = Inr w'" and fin: "cleanup_inv w0 pool POOL w'"
    using churn_cleanup_inv [of w0 pool 0 w] by auto
  have "\<forall>b < length (heap w0). lookup w' b = lookup w0 b"
    using fin unfolding cleanup_inv_def by blast
  then show ?thesis using l c cleanup_inv_done [OF fin] by (simp add: phase_churn_def)
qed

lemma churn_state_at:
  assumes "0 \<le> k" "k \<le> rounds"
  shows "\<exists>pool w. churn_loop 0 k (replicate POOL NULL) w0 = Inr (pool, w) \<and>
           churn_loop 0 rounds (replicate POOL NULL) w0 = churn_loop k rounds pool w \<and>
           churn_inv w0 pool w"
proof -
  obtain pool w where l: "churn_loop 0 k (replicate POOL NULL) w0 = Inr (pool, w)"
    and inv: "churn_inv w0 pool w"
    using churn_loop_inv [OF churn_inv_init] by blast
  have "churn_loop 0 rounds (replicate POOL NULL) w0 = churn_loop k rounds pool w"
    using churn_loop_split [OF assms, of "replicate POOL NULL" w0] l by simp
  then show ?thesis using l inv by blast
qed

lemma churn_release_at:
  assumes inv: "churn_inv w0 pool w"
  shows "\<exists>w1. churn_release (churn_idx w) pool (w\<lparr>rng_state := snd (xorshift64 (rng_state w))\<rparr>)
             = Inr (pool[churn_idx w := NULL], w1) \<and>
           {b. pool ! churn_idx w = Blk b} \<inter> live_blocks w1 = {} \<and>
           card (phase_live w0 w1) \<le> 2048 \<and>
           churn_body k pool w = churn_fill k (churn_idx w) (pool[churn_idx w := NULL]) w1"
proof -
  let ?wr = "w\<lparr>rng_state := snd (xorshift64 (rng_state w))\<rparr>"
  let ?idx = "churn_idx w"
  have "churn_inv w0 pool ?wr" using inv by (rule churn_inv_heap_eq) simp
  then obtain w1 where rel: "churn_release ?idx pool ?wr = Inr (pool[?idx := NULL], w1)"
    and inv1: "churn_inv w0 (pool[?idx := NULL]) w1"
    and dead: "\<forall>b. pool ! ?idx = Blk b \<longrightarrow> lookup w1 b = None"
    using churn_release_inv [OF _ churn_idx_less] by blast
  have "{b. pool ! ?idx = Blk b} \<inter> live_blocks w1 = {}"
    using dead by (auto simp: live_blocks_eq)
  moreover have "churn_body k pool w = churn_fill k ?idx (pool[?idx := NULL]) w1"
    using rel by (simp add: churn_body_def)
  ultimately show ?thesis using rel churn_inv_card [OF inv1] by blast
qed

text \<open>
  C4: in the churn phase, after any number \<open>k\<close> of iterations the run has reached a state
  in which the live buffers of the phase are exactly those held by the slots, so at most
  2048 of them; the release of lines 71-74 leaves the drawn slot empty with its former
  buffer freed before the slot is written again (and does not raise the number of live
  buffers); and the phase returns with none of its buffers live and every older block as it
  was.
\<close>

theorem churn_live_bounded:
  "(\<forall>k. 0 \<le> k \<and> k \<le> rounds \<longrightarrow>
      (\<exists>pool w. churn_loop 0 k (replicate POOL NULL) w0 = Inr (pool, w) \<and>
         churn_loop 0 rounds (replicate POOL NULL) w0 = churn_loop k rounds pool w \<and>
         phase_live w0 w = {b. Blk b \<in> set pool} \<and>
         card (phase_live w0 w) \<le> 2048 \<and>
         (\<exists>w1. churn_release (churn_idx w) pool (w\<lparr>rng_state := snd (xorshift64 (rng_state w))\<rparr>)
                 = Inr (pool[churn_idx w := NULL], w1) \<and>
               {b. pool ! churn_idx w = Blk b} \<inter> live_blocks w1 = {} \<and>
               card (phase_live w0 w1) \<le> 2048 \<and>
               churn_body k pool w = churn_fill k (churn_idx w) (pool[churn_idx w := NULL]) w1))) \<and>
   (\<exists>w'. phase_churn rounds w0 = Inr w' \<and> phase_live w0 w' = {} \<and>
      (\<forall>b < length (heap w0). lookup w' b = lookup w0 b))"
proof (intro conjI allI impI)
  fix k :: int
  assume k: "0 \<le> k \<and> k \<le> rounds"
  then obtain pool w where l: "churn_loop 0 k (replicate POOL NULL) w0 = Inr (pool, w)"
    and s: "churn_loop 0 rounds (replicate POOL NULL) w0 = churn_loop k rounds pool w"
    and inv: "churn_inv w0 pool w"
    using churn_state_at [of k rounds w0] by blast
  show "\<exists>pool w. churn_loop 0 k (replicate POOL NULL) w0 = Inr (pool, w) \<and>
         churn_loop 0 rounds (replicate POOL NULL) w0 = churn_loop k rounds pool w \<and>
         phase_live w0 w = {b. Blk b \<in> set pool} \<and>
         card (phase_live w0 w) \<le> 2048 \<and>
         (\<exists>w1. churn_release (churn_idx w) pool (w\<lparr>rng_state := snd (xorshift64 (rng_state w))\<rparr>)
                 = Inr (pool[churn_idx w := NULL], w1) \<and>
               {b. pool ! churn_idx w = Blk b} \<inter> live_blocks w1 = {} \<and>
               card (phase_live w0 w1) \<le> 2048 \<and>
               churn_body k pool w = churn_fill k (churn_idx w) (pool[churn_idx w := NULL]) w1)"
    using l s churn_inv_live [OF inv] churn_inv_card [OF inv] churn_release_at [OF inv, of k]
    by blast
next
  show "\<exists>w'. phase_churn rounds w0 = Inr w' \<and> phase_live w0 w' = {} \<and>
      (\<forall>b < length (heap w0). lookup w' b = lookup w0 b)"
    by (rule phase_churn_ok)
qed

theorem churn_live_bounded_witness:
  "(0::int) \<le> 1 \<and> (1::int) \<le> 3 \<and>
   (\<exists>pool w. churn_loop 0 1 (replicate POOL NULL) (init_world (\<lambda>n. True)) = Inr (pool, w) \<and>
      churn_loop 0 3 (replicate POOL NULL) (init_world (\<lambda>n. True)) = churn_loop 1 3 pool w \<and>
      card (phase_live (init_world (\<lambda>n. True)) w) \<le> 2048) \<and>
   (\<exists>w'. phase_churn 3 (init_world (\<lambda>n. True)) = Inr w' \<and>
      phase_live (init_world (\<lambda>n. True)) w' = {})"
proof -
  have h: "(0::int) \<le> 1 \<and> (1::int) \<le> 3" by simp
  show ?thesis
    using h churn_live_bounded [of 3 "init_world (\<lambda>n. True)"] by blast
qed

section \<open>The driver\<close>

lemma digits_val_no_digit: "\<forall>c \<in> set s. \<not> isdigit c \<Longrightarrow> digits_val a s = a"
  by (cases s) auto

lemma decimal_value_no_digit:
  assumes nd: "\<forall>c \<in> set s. \<not> isdigit c"
  shows "decimal_value s = 0"
proof (cases "dropWhile isspace s")
  case Nil
  show ?thesis unfolding decimal_value_def Nil by simp
next
  case (Cons c cs)
  have "set (c # cs) \<subseteq> set s"
    using set_dropWhileD [of _ isspace s] Cons by auto
  then have c: "\<not> isdigit c" and cs: "\<forall>d \<in> set cs. \<not> isdigit d" using nd by auto
  have "digits_val 0 cs = 0" using cs by (rule digits_val_no_digit)
  moreover have "digits_val 0 (c # cs) = 0" using c by simp
  ultimately show ?thesis unfolding decimal_value_def Cons by simp
qed

lemma atoi_in_range:
  assumes "- (2 ^ 31) \<le> decimal_value s" and "decimal_value s < 2 ^ 31"
  shows "atoi s = decimal_value s"
proof -
  have "strtol s = decimal_value s" using assms by (simp add: strtol_def)
  moreover have "(decimal_value s + 2 ^ 31) mod 2 ^ 32 = decimal_value s + 2 ^ 31"
    using assms by (intro mod_pos_pos_trivial) simp_all
  ultimately show ?thesis by (simp add: atoi_def long_to_int_def)
qed

lemma atoi_no_digit: "\<forall>c \<in> set s. \<not> isdigit c \<Longrightarrow> atoi s = 0"
  using atoi_in_range [of s] by (simp add: decimal_value_no_digit)

lemma atoi_bounds: "- (2 ^ 31) \<le> atoi s \<and> atoi s < 2 ^ 31"
proof -
  have "0 \<le> (strtol s + 2 ^ 31) mod 2 ^ 32" and "(strtol s + 2 ^ 31) mod 2 ^ 32 < (2 ^ 32 :: int)"
    by simp_all
  then show ?thesis by (simp add: atoi_def long_to_int_def)
qed

lemma main_config_max:
  "main_config r =
     \<lparr>churn_rounds = max r 1000,
      accumulation_count = max (max r 1000 div 50) 100,
      total_alloc_ops = max r 1000 + max (max r 1000 div 50) 100 * 3\<rparr>"
  by (simp add: main_config_def c_div_def Let_def max_def)

lemma main_rounds_absent: "length argv \<le> 1 \<Longrightarrow> main_rounds argv = 500000"
  by (simp add: main_rounds_def requested_rounds_def main_config_max)

lemma main_rounds_present: "1 < length argv \<Longrightarrow> main_rounds argv = max (atoi (argv ! 1)) 1000"
  by (simp add: main_rounds_def requested_rounds_def main_config_max)

text \<open>
  C2, as the claim states it, fails: with the non-numeric argument \<open>abc\<close> the program
  runs 1000 rounds, not 500000.
\<close>

theorem main_rounds_non_numeric_counterexample:
  "main_rounds [''bench-allocator'', ''abc''] = 1000 \<and>
   main_rounds [''bench-allocator'', ''abc''] \<noteq> 500000"
  by (simp add: main_rounds_def requested_rounds_def main_config_max atoi_def long_to_int_def
      strtol_def decimal_value_def isspace_def isdigit_def)

text \<open>
  C2, amended: with the argument absent the program uses 500000 rounds; with an argument
  present it uses the larger of \<open>atoi\<close> of the argument and 1000, where the result of
  \<open>atoi\<close> is a 32-bit \<open>int\<close>. So an argument without any digit (for which \<open>atoi\<close>
  gives 0) gives 1000 rounds, and an argument that writes a number \<open>v\<close> in the range of
  \<open>int\<close> gives \<open>max v 1000\<close> rounds: every such value below 1000 is clamped up to 1000.
\<close>

theorem main_rounds_default_and_clamp:
  "(length argv \<le> 1 \<longrightarrow> main_rounds argv = 500000) \<and>
   (1 < length argv \<longrightarrow>
      main_rounds argv = max (atoi (argv ! 1)) 1000 \<and>
      - (2 ^ 31) \<le> atoi (argv ! 1) \<and> atoi (argv ! 1) < 2 ^ 31) \<and>
   (1 < length argv \<and> (\<forall>c \<in> set (argv ! 1). \<not> isdigit c) \<longrightarrow> main_rounds argv = 1000) \<and>
   (1 < length argv \<and> - (2 ^ 31) \<le> decimal_value (argv ! 1) \<and> decimal_value (argv ! 1) < 2 ^ 31 \<longrightarrow>
      main_rounds argv = max (decimal_value (argv ! 1)) 1000)"
proof (intro conjI impI)
  show "main_rounds argv = 500000" if "length argv \<le> 1"
    using that by (rule main_rounds_absent)
  show "main_rounds argv = max (atoi (argv ! 1)) 1000" if "1 < length argv"
    using that by (rule main_rounds_present)
  show "- (2 ^ 31) \<le> atoi (argv ! 1)" if "1 < length argv"
    using atoi_bounds [of "argv ! 1"] by simp
  show "atoi (argv ! 1) < 2 ^ 31" if "1 < length argv"
    using atoi_bounds [of "argv ! 1"] by simp
  show "main_rounds argv = 1000" if "1 < length argv \<and> (\<forall>c \<in> set (argv ! 1). \<not> isdigit c)"
    using that main_rounds_present [of argv] atoi_no_digit [of "argv ! 1"] by simp
  show "main_rounds argv = max (decimal_value (argv ! 1)) 1000"
    if "1 < length argv \<and> - (2 ^ 31) \<le> decimal_value (argv ! 1) \<and> decimal_value (argv ! 1) < 2 ^ 31"
    using that main_rounds_present [of argv] atoi_in_range [of "argv ! 1"] by simp
qed

theorem main_rounds_default_and_clamp_witness:
  "length [''bench-allocator''] \<le> 1 \<and> main_rounds [''bench-allocator''] = 500000 \<and>
   1 < length [''bench-allocator'', ''abc''] \<and>
   \<not> isdigit CHR ''a'' \<and> \<not> isdigit CHR ''b'' \<and> \<not> isdigit CHR ''c'' \<and>
   main_rounds [''bench-allocator'', ''abc''] = 1000 \<and>
   1 < length [''bench-allocator'', ''250''] \<and>
   - (2 ^ 31) \<le> decimal_value ''250'' \<and> decimal_value ''250'' < 2 ^ 31 \<and>
   main_rounds [''bench-allocator'', ''250''] = 1000 \<and>
   1 < length [''bench-allocator'', ''4294972296''] \<and>
   main_rounds [''bench-allocator'', ''4294972296''] = 5000"
proof -
  have a: "length [''bench-allocator''] \<le> 1" by simp
  have b: "1 < length [''bench-allocator'', ''abc''] \<and>
      (\<forall>c \<in> set ([''bench-allocator'', ''abc''] ! 1). \<not> isdigit c)"
    by (simp add: isdigit_def)
  have c: "1 < length [''bench-allocator'', ''250'']" by simp
  have d: "decimal_value ''250'' = 250" by (simp add: decimal_value_def isspace_def isdigit_def)
  have e: "1 < length [''bench-allocator'', ''4294972296'']" by simp
  have f: "atoi ''4294972296'' = 5000"
    by (simp add: atoi_def long_to_int_def strtol_def decimal_value_def isspace_def isdigit_def)
  show ?thesis
    using a b c d e f main_rounds_default_and_clamp [of "[''bench-allocator'']"]
      main_rounds_default_and_clamp [of "[''bench-allocator'', ''abc'']"]
      main_rounds_default_and_clamp [of "[''bench-allocator'', ''250'']"]
      main_rounds_default_and_clamp [of "[''bench-allocator'', ''4294972296'']"]
    by simp
qed

text \<open>
  C7: from the requested value \<open>r\<close> the driver runs \<open>max r 1000\<close> rounds, keeps
  \<open>max (rounds div 50) 100\<close> long-lived buffers and reports \<open>rounds + accum_count * 3\<close>
  operations; for 1000 rounds that is 1300.
\<close>

theorem main_config_values:
  "churn_rounds (main_config r) = max r 1000 \<and>
   accumulation_count (main_config r) = max (churn_rounds (main_config r) div 50) 100 \<and>
   total_alloc_ops (main_config r) =
     churn_rounds (main_config r) + accumulation_count (main_config r) * 3 \<and>
   main_config 1000 = \<lparr>churn_rounds = 1000, accumulation_count = 100, total_alloc_ops = 1300\<rparr>"
  by (simp add: main_config_max)

text \<open>
  C8: for readings that are not negative (the probe gives a number of kilobytes, or 0),
  the ratio is reported exactly when both readings are nonzero, it is then the
  post-fragment reading divided by the post-accumulate reading, and when either reading is
  zero nothing is computed.
\<close>

theorem frag_ratio_guard:
  assumes "0 \<le> rss_after_accum" and "0 \<le> rss_after_frag"
  shows "(frag_ratio rss_after_accum rss_after_frag \<noteq> None \<longleftrightarrow>
            rss_after_accum \<noteq> 0 \<and> rss_after_frag \<noteq> 0) \<and>
         (rss_after_accum \<noteq> 0 \<and> rss_after_frag \<noteq> 0 \<longrightarrow>
            frag_ratio rss_after_accum rss_after_frag =
              Some (real_of_int rss_after_frag / real_of_int rss_after_accum)) \<and>
         (rss_after_accum = 0 \<or> rss_after_frag = 0 \<longrightarrow>
            frag_ratio rss_after_accum rss_after_frag = None)"
  using assms by (auto simp: frag_ratio_def)

theorem frag_ratio_guard_witness:
  "(0::int) \<le> 2048 \<and> (0::int) \<le> 1024 \<and> frag_ratio 2048 1024 = Some (1 / 2) \<and>
   (0::int) \<le> 0 \<and> frag_ratio 0 1024 = None \<and> frag_ratio 2048 0 = None"
proof -
  have a: "(0::int) \<le> 2048" and b: "(0::int) \<le> 1024" and c: "(0::int) \<le> 0" by simp_all
  show ?thesis
    using frag_ratio_guard [OF a b] frag_ratio_guard [OF c b] frag_ratio_guard [OF a c] by simp
qed

section \<open>The accumulate phase\<close>

lemma accum_body_alloc_into: "accum_body i out_ptrs w = alloc_into 4096 65536 0xAB i out_ptrs w"
  by (simp add: accum_body_def alloc_into_def)

lemma frag_alloc_body_alloc_into: "frag_alloc_body i ptrs w = alloc_into 128 8192 0xCD i ptrs w"
  by (simp add: frag_alloc_body_def alloc_into_def)

lemma store_handle_cells:
  "lookup w a = Some (Handles cs) \<Longrightarrow> 0 \<le> i \<Longrightarrow> nat i < length cs \<Longrightarrow>
     store_handle (Blk a) i p w =
       Inr (w\<lparr>heap := (heap w)[a := Some (Handles (cs[nat i := Some p]))]\<rparr>)"
  by (simp add: store_handle_def)

lemma load_handle_cells:
  "lookup w a = Some (Handles cs) \<Longrightarrow> 0 \<le> i \<Longrightarrow> nat i < length cs \<Longrightarrow> cs ! nat i = Some p \<Longrightarrow>
     load_handle (Blk a) i w = Inr p"
  by (simp add: load_handle_def)

lemma alloc_into_effect:
  assumes hb: "lookup w a = Some (Handles cs)" and i: "0 \<le> i" "nat i < length cs"
    and range: "lo < hi"
  shows "\<exists>w' sz. alloc_into lo hi c i (Blk a) w = Inr w' \<and> unat lo \<le> sz \<and> sz < unat hi \<and>
           malloc_calls w' = Suc (malloc_calls w) \<and> malloc_ok w' = malloc_ok w \<and>
           (if malloc_ok w (malloc_calls w)
            then heap w' = (heap w)[a := Some (Handles (cs[nat i := Some (Blk (length (heap w)))]))]
                             @ [Some (Bytes (replicate sz (Some c)))]
            else heap w' = (heap w)[a := Some (Handles (cs[nat i := Some NULL]))])"
proof -
  obtain sz where rr: "rand_range lo hi (rng_state w) = Inr (sz, snd (xorshift64 (rng_state w)))"
    and sz: "lo \<le> sz" "sz < hi"
    using rand_range_ok [OF range] by blast
  have szn: "unat lo \<le> unat sz" "unat sz < unat hi"
    using sz by (simp_all add: word_le_nat_alt word_less_nat_alt)
  have al: "a < length (heap w)" using hb by (intro lookup_live_less) simp
  have hn: "heap w ! a = Some (Handles cs)" using hb al by (simp add: lookup_def)
  let ?wr = "w\<lparr>rng_state := snd (xorshift64 (rng_state w))\<rparr>"
  show ?thesis
  proof (cases "malloc_ok w (malloc_calls w)")
    case False
    let ?w1 = "?wr\<lparr>malloc_calls := Suc (malloc_calls w)\<rparr>"
    let ?w2 = "?w1\<lparr>heap := (heap ?w1)[a := Some (Handles (cs[nat i := Some NULL]))]\<rparr>"
    have m: "malloc (Bytes (replicate (unat sz) None)) ?wr = (NULL, ?w1)"
      using False by (simp add: malloc_fail)
    have l1: "lookup ?w1 a = Some (Handles cs)" using hn al by (simp add: lookup_def)
    have st: "store_handle (Blk a) i NULL ?w1 = Inr ?w2"
      by (rule store_handle_cells [OF l1 i])
    have l2: "lookup ?w2 a = Some (Handles (cs[nat i := Some NULL]))"
      using al by (simp add: lookup_def)
    have ld: "load_handle (Blk a) i ?w2 = Inr NULL"
      by (rule load_handle_cells [OF l2 i(1)]) (use i in simp_all)
    have "alloc_into lo hi c i (Blk a) w = Inr ?w2"
      unfolding alloc_into_def rr using m st ld by simp
    then show ?thesis using False szn by (intro exI [of _ ?w2] exI [of _ "unat sz"]) simp
  next
    case True
    let ?n = "length (heap w)"
    let ?w1 = "?wr\<lparr>heap := heap ?wr @ [Some (Bytes (replicate (unat sz) None))],
                   malloc_calls := Suc (malloc_calls ?wr)\<rparr>"
    let ?w2 = "?w1\<lparr>heap := (heap ?w1)[a := Some (Handles (cs[nat i := Some (Blk ?n)]))]\<rparr>"
    let ?w3 = "?w2\<lparr>heap := (heap ?w2)[?n := Some (Bytes (replicate (unat sz) (Some c) @
                 drop (unat sz) (replicate (unat sz) None)))]\<rparr>"
    have m: "malloc (Bytes (replicate (unat sz) None)) ?wr = (Blk ?n, ?w1)"
      using True malloc_succ [of ?wr] by simp
    have l1: "lookup ?w1 a = Some (Handles cs)" using hn al by (simp add: lookup_def nth_append)
    have st: "store_handle (Blk a) i (Blk ?n) ?w1 = Inr ?w2"
      by (rule store_handle_cells [OF l1 i])
    have l2: "lookup ?w2 a = Some (Handles (cs[nat i := Some (Blk ?n)]))"
      using al by (simp add: lookup_def)
    have ld: "load_handle (Blk a) i ?w2 = Inr (Blk ?n)"
      by (rule load_handle_cells [OF l2 i(1)]) (use i in simp_all)
    have l3: "lookup ?w2 ?n = Some (Bytes (replicate (unat sz) None))"
      using al by (simp add: lookup_def)
    have ms: "memset (Blk ?n) c (unat sz) ?w2 = Inr ?w3"
      by (rule memset_bytes [OF l3]) simp
    have run: "alloc_into lo hi c i (Blk a) w = Inr ?w3"
      unfolding alloc_into_def rr using m st ld ms by simp
    have hp: "heap ?w3 = (heap w)[a := Some (Handles (cs[nat i := Some (Blk ?n)]))]
                             @ [Some (Bytes (replicate (unat sz) (Some c)))]"
      using al by (simp add: list_update_append)
    show ?thesis using True szn run hp
      by (intro exI [of _ ?w3] exI [of _ "unat sz"]) simp
  qed
qed


lemma filled_buffer_live: "filled_buffer w b lo hi c \<Longrightarrow> lookup w b \<noteq> None"
  by (auto simp: filled_buffer_def split: option.splits)

lemma filled_buffer_cong: "lookup w' b = lookup w b \<Longrightarrow> filled_buffer w' b lo hi c = filled_buffer w b lo hi c"
  by (simp add: filled_buffer_def)

lemma accum_inv_step:
  assumes inv: "accum_inv w0 n i w" and i: "i < n"
  shows "\<exists>w'. accum_body (int i) (Blk (length (heap w0))) w = Inr w' \<and> accum_inv w0 n (Suc i) w'"
proof -
  let ?a = "length (heap w0)"
  obtain cs where hb: "lookup w ?a = Some (Handles cs)" and len: "length cs = n"
    and frame: "\<And>b. b < ?a \<Longrightarrow> lookup w b = lookup w0 b"
    and calls: "malloc_calls w = Suc (malloc_calls w0) + i" and ok: "malloc_ok w = malloc_ok w0"
    and ent: "\<And>j. j < i \<Longrightarrow> (if malloc_ok w0 (Suc (malloc_calls w0) + j)
                 then (\<exists>b. cs ! j = Some (Blk b) \<and> ?a < b \<and> filled_buffer w b 4096 65536 0xAB)
                 else cs ! j = Some NULL)"
    and uq: "\<And>j k. j < i \<Longrightarrow> k < i \<Longrightarrow> cs ! j = cs ! k \<Longrightarrow> cs ! j \<noteq> Some NULL \<Longrightarrow> j = k"
    using inv unfolding accum_inv_def by blast
  have al: "?a < length (heap w)" using hb by (intro lookup_live_less) simp
  have i': "0 \<le> int i" "nat (int i) < length cs" using i len by simp_all
  obtain w' sz where run: "alloc_into 4096 65536 0xAB (int i) (Blk ?a) w = Inr w'"
    and sz: "unat (4096::u64) \<le> sz" "sz < unat (65536::u64)"
    and calls': "malloc_calls w' = Suc (malloc_calls w)" and ok': "malloc_ok w' = malloc_ok w"
    and hp: "if malloc_ok w (malloc_calls w)
            then heap w' = (heap w)[?a := Some (Handles (cs[nat (int i) := Some (Blk (length (heap w)))]))]
                             @ [Some (Bytes (replicate sz (Some 0xAB)))]
            else heap w' = (heap w)[?a := Some (Handles (cs[nat (int i) := Some NULL]))]"
    using alloc_into_effect [OF hb i', where lo = 4096 and hi = 65536 and c = "0xAB"] by auto
  have run': "accum_body (int i) (Blk ?a) w = Inr w'" using run by (simp add: accum_body_alloc_into)
  show ?thesis
  proof (cases "malloc_ok w (malloc_calls w)")
    case False
    let ?cs' = "cs[i := Some NULL]"
    have h': "heap w' = (heap w)[?a := Some (Handles ?cs')]" using hp False by simp
    have lk: "lookup w' c = (if c = ?a then Some (Handles ?cs') else lookup w c)" for c
      using al by (simp add: lookup_def h')
    have "accum_inv w0 n (Suc i) w'"
      unfolding accum_inv_def
    proof (intro exI [of _ ?cs'] conjI allI impI)
      show "lookup w' ?a = Some (Handles ?cs')" by (simp add: lk)
      show "length ?cs' = n" using len by simp
      show "lookup w' b = lookup w0 b" if "b < ?a" for b using that frame by (simp add: lk)
      show "malloc_calls w' = Suc (malloc_calls w0) + Suc i" using calls calls' by simp
      show "malloc_ok w' = malloc_ok w0" using ok ok' by simp
      show "if malloc_ok w0 (Suc (malloc_calls w0) + j)
            then \<exists>b. ?cs' ! j = Some (Blk b) \<and> ?a < b \<and> filled_buffer w' b 4096 65536 0xAB
            else ?cs' ! j = Some NULL" if "j < Suc i" for j
      proof (cases "j = i")
        case True
        then show ?thesis using False calls ok i len by simp
      next
        case ne: False
        then have ji: "j < i" using that by simp
        show ?thesis
        proof (cases "malloc_ok w0 (Suc (malloc_calls w0) + j)")
          case True
          then obtain b where b: "cs ! j = Some (Blk b)" "?a < b" "filled_buffer w b 4096 65536 0xAB"
            using ent [OF ji] by auto
          have "filled_buffer w' b 4096 65536 0xAB"
            using b by (simp add: filled_buffer_def lk)
          then show ?thesis using True b ne by auto
        next
          case False
          then show ?thesis using ent [OF ji] ne by simp
        qed
      qed
      show "j = k" if "j < Suc i" "k < Suc i" "?cs' ! j = ?cs' ! k" "?cs' ! j \<noteq> Some NULL" for j k
      proof -
        have "j \<noteq> i" using that(4) i len by auto
        moreover have "k \<noteq> i" using that(3,4) i len by auto
        ultimately show ?thesis using that uq [of j k] by simp
      qed
    qed
    then show ?thesis using run' by blast
  next
    case True
    let ?m = "length (heap w)"
    let ?cs' = "cs[i := Some (Blk ?m)]"
    let ?buf = "Bytes (replicate sz (Some 0xAB))"
    have h': "heap w' = (heap w)[?a := Some (Handles ?cs')] @ [Some ?buf]" using hp True by simp
    have lk: "lookup w' c = (if c = ?a then Some (Handles ?cs') else if c = ?m then Some ?buf
                else lookup w c)" for c
      using al by (simp add: lookup_def h' nth_append)
    have old: "b < ?m" if "j < i" "cs ! j = Some (Blk b)" for j b
    proof -
      have "filled_buffer w b 4096 65536 0xAB"
        using ent [OF that(1)] that(2) by (auto split: if_splits)
      then show ?thesis by (intro lookup_live_less filled_buffer_live)
    qed
    have "accum_inv w0 n (Suc i) w'"
      unfolding accum_inv_def
    proof (intro exI [of _ ?cs'] conjI allI impI)
      show "lookup w' ?a = Some (Handles ?cs')" by (simp add: lk)
      show "length ?cs' = n" using len by simp
      show "lookup w' b = lookup w0 b" if "b < ?a" for b using that frame al by (simp add: lk)
      show "malloc_calls w' = Suc (malloc_calls w0) + Suc i" using calls calls' by simp
      show "malloc_ok w' = malloc_ok w0" using ok ok' by simp
      show "if malloc_ok w0 (Suc (malloc_calls w0) + j)
            then \<exists>b. ?cs' ! j = Some (Blk b) \<and> ?a < b \<and> filled_buffer w' b 4096 65536 0xAB
            else ?cs' ! j = Some NULL" if "j < Suc i" for j
      proof (cases "j = i")
        case eq: True
        have "filled_buffer w' ?m 4096 65536 0xAB"
          using sz al by (simp add: filled_buffer_def lk)
        then show ?thesis using eq True calls ok i len al by auto
      next
        case ne: False
        then have ji: "j < i" using that by simp
        show ?thesis
        proof (cases "malloc_ok w0 (Suc (malloc_calls w0) + j)")
          case ok_j: True
          then obtain b where b: "cs ! j = Some (Blk b)" "?a < b" "filled_buffer w b 4096 65536 0xAB"
            using ent [OF ji] by auto
          have "b < ?m" using old [OF ji b(1)] .
          then have "filled_buffer w' b 4096 65536 0xAB"
            using b by (simp add: filled_buffer_def lk)
          then show ?thesis using ok_j b ne by auto
        next
          case False
          then show ?thesis using ent [OF ji] ne by simp
        qed
      qed
      show "j = k" if "j < Suc i" "k < Suc i" "?cs' ! j = ?cs' ! k" "?cs' ! j \<noteq> Some NULL" for j k
      proof (cases "j = i")
        case ji: True
        show ?thesis
        proof (cases "k = i")
          case True
          then show ?thesis using ji by simp
        next
          case False
          then have "k < i" "cs ! k = Some (Blk ?m)" using that ji i len by auto
          then show ?thesis using old by blast
        qed
      next
        case ji: False
        show ?thesis
        proof (cases "k = i")
          case True
          then have "j < i" "cs ! j = Some (Blk ?m)" using that ji i len by auto
          then show ?thesis using old by blast
        next
          case False
          then show ?thesis using that ji uq [of j k] by simp
        qed
      qed
    qed
    then show ?thesis using run' by blast
  qed
qed

lemma accum_loop_inv:
  "accum_inv w0 n (nat i) w \<Longrightarrow> 0 \<le> i \<Longrightarrow> i \<le> count \<Longrightarrow> n = nat count \<Longrightarrow>
     \<exists>w'. accum_loop i count (Blk (length (heap w0))) w = Inr w' \<and> accum_inv w0 n n w'"
proof (induction i count "Blk (length (heap w0))" w rule: accum_loop.induct)
  case (1 i count w)
  show ?case
  proof (cases "i < count")
    case False
    then have "nat i = n" using "1.prems" by simp
    then show ?thesis using False "1.prems" by simp
  next
    case True
    then have "nat i < n" using "1.prems" by simp
    then obtain w1 where b: "accum_body (int (nat i)) (Blk (length (heap w0))) w = Inr w1"
      and inv1: "accum_inv w0 n (Suc (nat i)) w1"
      using accum_inv_step [OF "1.prems"(1)] by blast
    have b': "accum_body i (Blk (length (heap w0))) w = Inr w1" using b "1.prems" by simp
    have "Suc (nat i) = nat (i + 1)" using "1.prems" by simp
    then have "\<exists>w'. accum_loop (i + 1) count (Blk (length (heap w0))) w1 = Inr w' \<and> accum_inv w0 n n w'"
      using "1.hyps" [OF True b'] inv1 True "1.prems" by simp
    then show ?thesis using True b' by simp
  qed
qed

lemma handle_cells_count:
  assumes "0 \<le> count" "count < 2 ^ 31"
  shows "handle_cells count = nat count"
proof -
  have "8 * nat count < 2 ^ 64" using assms by simp
  have u: "unat (word_of_int count :: u64) = nat count"
    using assms by (simp add: unat_eq_nat_uint take_bit_int_eq_self uint_word_of_int_eq)
  have "unat ((8 :: u64) * word_of_int count) = 8 * nat count"
    using u assms by (simp add: unat_word_ariths)
  then show ?thesis by (simp add: handle_cells_def)
qed

lemma phase_accumulate_inv:
  assumes c: "0 \<le> count" "count < 2 ^ 31" and ok: "malloc_ok w (malloc_calls w)"
  shows "\<exists>w'. phase_accumulate count w = Inr (Blk (length (heap w)), count, w') \<and>
           accum_inv w (nat count) (nat count) w'"
proof -
  let ?a = "length (heap w)"
  let ?cs = "replicate (nat count) (None :: ptr option)"
  let ?w1 = "w\<lparr>heap := heap w @ [Some (Handles ?cs)], malloc_calls := Suc (malloc_calls w)\<rparr>"
  have m: "malloc (Handles (replicate (handle_cells count) None)) w = (Blk ?a, ?w1)"
    using ok by (simp add: malloc_succ handle_cells_count [OF c])
  have "accum_inv w (nat count) (nat 0) ?w1"
    unfolding accum_inv_def
    by (intro exI [of _ ?cs]) (simp add: lookup_def nth_append)
  then obtain w' where "accum_loop 0 count (Blk ?a) ?w1 = Inr w'" "accum_inv w (nat count) (nat count) w'"
    using accum_loop_inv [of w "nat count" 0 ?w1 count] c by auto
  then show ?thesis using m by (simp add: phase_accumulate_def)
qed

lemma alloc_into_null:
  assumes "lo < hi"
  shows "alloc_into lo hi c i NULL w = Inl NullDeref"
proof -
  obtain sz where "rand_range lo hi (rng_state w) = Inr (sz, snd (xorshift64 (rng_state w)))"
    using rand_range_ok [OF assms] by blast
  then show ?thesis
    by (simp add: alloc_into_def store_handle_def split: prod.splits)
qed

lemma phase_accumulate_null:
  assumes "0 < count" and "\<not> malloc_ok w (malloc_calls w)"
  shows "phase_accumulate count w = Inl NullDeref"
proof -
  let ?w1 = "w\<lparr>malloc_calls := Suc (malloc_calls w)\<rparr>"
  have m: "malloc (Handles (replicate (handle_cells count) None)) w = (NULL, ?w1)"
    using assms(2) by (rule malloc_fail)
  have "accum_body 0 NULL ?w1 = Inl NullDeref"
    by (simp add: accum_body_alloc_into alloc_into_null)
  then have "accum_loop 0 count NULL ?w1 = Inl NullDeref"
    using assms(1) by (simp add: accum_loop.simps [of 0 count])
  then show ?thesis using m by (simp add: phase_accumulate_def)
qed

lemma phase_accumulate_empty:
  assumes "\<not> malloc_ok w (malloc_calls w)"
  shows "phase_accumulate 0 w = Inr (NULL, 0, w\<lparr>malloc_calls := Suc (malloc_calls w)\<rparr>)"
  using malloc_fail [OF assms] by (simp add: phase_accumulate_def)

text \<open>
  C1: the claim holds for the buffers but not for the handle array: when the allocation at
  line 93 fails and \<open>count\<close> is positive, line 98 writes through the null pointer. Here the
  phase is run for 100 handles from the initial state with an allocator whose first call
  fails.
\<close>

theorem phase_accumulate_null_list_aborts:
  "phase_accumulate 100 (init_world (\<lambda>n. n \<noteq> 0)) = Inl NullDeref"
  by (rule phase_accumulate_null) (simp_all add: init_world_def)

lemma accum_inv_entries:
  assumes "accum_inv w0 n n w"
  shows "length (handles_of w (Blk (length (heap w0)))) = n \<and>
         (\<forall>j < n. if malloc_ok w0 (Suc (malloc_calls w0) + j)
                 then (\<exists>b. handles_of w (Blk (length (heap w0))) ! j = Some (Blk b) \<and>
                           filled_buffer w b 4096 65536 0xAB)
                 else handles_of w (Blk (length (heap w0))) ! j = Some NULL)"
proof -
  obtain cs where hb: "lookup w (length (heap w0)) = Some (Handles cs)" and len: "length cs = n"
    and ent: "\<And>j. j < n \<Longrightarrow> (if malloc_ok w0 (Suc (malloc_calls w0) + j)
                 then (\<exists>b. cs ! j = Some (Blk b) \<and> length (heap w0) < b \<and>
                          filled_buffer w b 4096 65536 0xAB)
                 else cs ! j = Some NULL)"
    using assms unfolding accum_inv_def by blast
  have h: "handles_of w (Blk (length (heap w0))) = cs" using hb by (simp add: handles_of_def)
  have "if malloc_ok w0 (Suc (malloc_calls w0) + j)
        then (\<exists>b. cs ! j = Some (Blk b) \<and> filled_buffer w b 4096 65536 0xAB)
        else cs ! j = Some NULL" if j: "j < n" for j
  proof (cases "malloc_ok w0 (Suc (malloc_calls w0) + j)")
    case True
    then obtain b where "cs ! j = Some (Blk b)" "filled_buffer w b 4096 65536 0xAB"
      using ent [OF j] by auto
    then show ?thesis using True by auto
  next
    case False
    then show ?thesis using ent [OF j] by simp
  qed
  then show ?thesis unfolding h using len by blast
qed

text \<open>
  C5: for a count in the range of \<open>int\<close>, the phase completes when the handle array is
  allocated, and whenever it completes it reports \<open>count\<close>, the handle array has exactly
  \<open>count\<close> entries, and entry \<open>j\<close> is null when its allocation (the call of \<open>malloc\<close>
  number \<open>j + 1\<close> of the phase) failed and otherwise a live buffer of a size in
  \<open>[4096, 65536)\<close> with every byte \<open>0xAB\<close>.
\<close>

theorem accumulate_list:
  assumes "0 \<le> count" and "count < 2 ^ 31"
  shows "(malloc_ok w (malloc_calls w) \<longrightarrow>
            (\<exists>w'. phase_accumulate count w = Inr (Blk (length (heap w)), count, w'))) \<and>
         (\<forall>out_ptrs out_count w'.
            phase_accumulate count w = Inr (out_ptrs, out_count, w') \<longrightarrow>
            out_count = count \<and> length (handles_of w' out_ptrs) = nat count \<and>
            (\<forall>j < nat count.
               if malloc_ok w (Suc (malloc_calls w) + j)
               then (\<exists>b. handles_of w' out_ptrs ! j = Some (Blk b) \<and>
                         filled_buffer w' b 4096 65536 0xAB)
               else handles_of w' out_ptrs ! j = Some NULL))"
proof (cases "malloc_ok w (malloc_calls w)")
  case True
  obtain w1 where r: "phase_accumulate count w = Inr (Blk (length (heap w)), count, w1)"
    and inv: "accum_inv w (nat count) (nat count) w1"
    using phase_accumulate_inv [OF assms True] by blast
  show ?thesis using r accum_inv_entries [OF inv] by auto
next
  case False
  show ?thesis
  proof (cases "count = 0")
    case True
    then show ?thesis using False phase_accumulate_empty [OF False] by (simp add: handles_of_def)
  next
    case nz: False
    then have "phase_accumulate count w = Inl NullDeref"
      using assms False by (intro phase_accumulate_null) simp_all
    then show ?thesis using False by simp
  qed
qed

theorem accumulate_list_witness:
  "(0::int) \<le> 2 \<and> (2::int) < 2 ^ 31 \<and>
   malloc_ok (init_world (\<lambda>n. n \<noteq> 2)) (malloc_calls (init_world (\<lambda>n. n \<noteq> 2))) \<and>
   (\<exists>w'. phase_accumulate 2 (init_world (\<lambda>n. n \<noteq> 2)) = Inr (Blk 0, 2, w') \<and>
      length (handles_of w' (Blk 0)) = 2 \<and>
      (\<exists>b. handles_of w' (Blk 0) ! 0 = Some (Blk b) \<and> filled_buffer w' b 4096 65536 0xAB) \<and>
      handles_of w' (Blk 0) ! 1 = Some NULL)"
proof -
  let ?w = "init_world (\<lambda>n. n \<noteq> 2)"
  have a: "(0::int) \<le> 2" and b: "(2::int) < 2 ^ 31" by simp_all
  have ok: "malloc_ok ?w (malloc_calls ?w)" by (simp add: init_world_def)
  have len: "length (heap ?w) = 0" and calls: "malloc_calls ?w = 0"
    and m1: "malloc_ok ?w (Suc 0)" and m2: "\<not> malloc_ok ?w (Suc (Suc 0))"
    by (simp_all add: init_world_def)
  obtain w' where r: "phase_accumulate 2 ?w = Inr (Blk 0, 2, w')"
    using accumulate_list [OF a b, of ?w] ok len by auto
  have "length (handles_of w' (Blk 0)) = 2 \<and>
      (\<forall>j < 2. if malloc_ok ?w (Suc (malloc_calls ?w) + j)
               then (\<exists>b. handles_of w' (Blk 0) ! j = Some (Blk b) \<and>
                         filled_buffer w' b 4096 65536 0xAB)
               else handles_of w' (Blk 0) ! j = Some NULL)"
    using accumulate_list [OF a b, of ?w] r by simp
  then have "length (handles_of w' (Blk 0)) = 2 \<and>
      (\<exists>b. handles_of w' (Blk 0) ! 0 = Some (Blk b) \<and> filled_buffer w' b 4096 65536 0xAB) \<and>
      handles_of w' (Blk 0) ! 1 = Some NULL"
    using calls m1 m2 by (auto simp: less_Suc_eq numeral_2_eq_2 split: if_splits)
  then show ?thesis using a b ok r by blast
qed

section \<open>The fragment phase\<close>

lemma free_live:
  "lookup w b \<noteq> None \<Longrightarrow> free (Blk b) w = Inr (w\<lparr>heap := (heap w)[b := None]\<rparr>)"
  by (simp add: free_def)

lemma accum_inv_good_list:
  assumes "accum_inv w0 n n w"
  shows "\<exists>cs. length cs = n \<and> good_list (length (heap w0)) cs w"
proof -
  let ?a = "length (heap w0)"
  obtain cs where hb: "lookup w ?a = Some (Handles cs)" and len: "length cs = n"
    and ent: "\<And>j. j < n \<Longrightarrow> (if malloc_ok w0 (Suc (malloc_calls w0) + j)
                 then (\<exists>b. cs ! j = Some (Blk b) \<and> ?a < b \<and> filled_buffer w b 4096 65536 0xAB)
                 else cs ! j = Some NULL)"
    and uq: "\<And>j k. j < n \<Longrightarrow> k < n \<Longrightarrow> cs ! j = cs ! k \<Longrightarrow> cs ! j \<noteq> Some NULL \<Longrightarrow> j = k"
    using assms unfolding accum_inv_def by blast
  have "cs ! j = Some NULL \<or> (\<exists>b. cs ! j = Some (Blk b) \<and> b \<noteq> ?a \<and> lookup w b \<noteq> None)"
    if j: "j < length cs" for j
  proof (cases "malloc_ok w0 (Suc (malloc_calls w0) + j)")
    case True
    then obtain b where "cs ! j = Some (Blk b)" "?a < b" "filled_buffer w b 4096 65536 0xAB"
      using ent [of j] j len by auto
    then show ?thesis using filled_buffer_live by blast
  next
    case False
    then show ?thesis using ent [of j] j len by simp
  qed
  then have "good_list ?a cs w" unfolding good_list_def using hb uq len by blast
  then show ?thesis using len by blast
qed

lemma frag_free_step:
  assumes gl: "good_list a cs1 w1" and inv: "frag_free_inv a cs1 w1 i w"
    and i: "odd i" "i < length cs1"
  shows "\<exists>w'. frag_free_body (int i) (Blk a) w = Inr w' \<and> frag_free_inv a cs1 w1 (i + 2) w'"
proof -
  let ?n = "length cs1"
  let ?f = "\<lambda>m j. if odd j \<and> j < m then Some NULL else cs1 ! j"
  let ?cur = "map (?f i) [0..<?n]"
  let ?new = "map (?f (i + 2)) [0..<?n]"
  have hl: "length (heap w) = length (heap w1)" and calls: "malloc_calls w = malloc_calls w1"
    and ok: "malloc_ok w = malloc_ok w1" and hb: "lookup w a = Some (Handles ?cur)"
    and lkw: "\<And>b. b \<noteq> a \<Longrightarrow> lookup w b =
        (if \<exists>j < i. odd j \<and> j < ?n \<and> cs1 ! j = Some (Blk b) then None else lookup w1 b)"
    using inv unfolding frag_free_inv_def by blast+
  have ent: "cs1 ! i = Some NULL \<or> (\<exists>b. cs1 ! i = Some (Blk b) \<and> b \<noteq> a \<and> lookup w1 b \<noteq> None)"
    using gl i unfolding good_list_def by blast
  have uq: "\<And>j. j < ?n \<Longrightarrow> cs1 ! j = cs1 ! i \<Longrightarrow> cs1 ! i \<noteq> Some NULL \<Longrightarrow> j = i"
    using gl i unfolding good_list_def by metis
  have al: "a < length (heap w)" using hb by (intro lookup_live_less) simp
  have upd: "?cur[i := Some NULL] = ?new"
  proof (rule nth_equalityI)
    show "length (?cur[i := Some NULL]) = length ?new" by simp
    fix j assume "j < length (?cur[i := Some NULL])"
    then have j: "j < ?n" by simp
    show "?cur[i := Some NULL] ! j = ?new ! j"
    proof (cases "j = i")
      case True
      then show ?thesis using i j by simp
    next
      case False
      have "(odd j \<and> j < i + 2) = (odd j \<and> j < i)" using False i(1) by presburger
      then show ?thesis using False j by simp
    qed
  qed
  have ii: "0 \<le> int i" "nat (int i) < length ?cur" using i by simp_all
  have cur_i: "?cur ! nat (int i) = cs1 ! i" using i by simp
  show ?thesis
  proof (cases "cs1 ! i = Some NULL")
    case True
    have ld: "load_handle (Blk a) (int i) w = Inr NULL"
      using load_handle_cells [OF hb ii] cur_i True by simp
    obtain w' where st: "store_handle (Blk a) (int i) NULL w = Inr w'"
      and h': "heap w' = (heap w)[a := Some (Handles ?new)]"
      and o': "malloc_calls w' = malloc_calls w" "malloc_ok w' = malloc_ok w"
      using store_handle_cells [OF hb ii, of NULL] upd by simp
    have lk: "lookup w' c = (if c = a then Some (Handles ?new) else lookup w c)" for c
      using al by (simp add: lookup_def h')
    have body: "frag_free_body (int i) (Blk a) w = Inr w'"
      using ld st by (simp add: frag_free_body_def free_def)
    have ex: "(\<exists>j < i + 2. odd j \<and> j < ?n \<and> cs1 ! j = Some (Blk c)) =
              (\<exists>j < i. odd j \<and> j < ?n \<and> cs1 ! j = Some (Blk c))" for c
    proof -
      have "j < i" if "j < i + 2" "odd j" "cs1 ! j = Some (Blk c)" for j
      proof -
        have "j \<noteq> i" using that True by auto
        moreover have "j \<noteq> i + 1" using that i(1) by auto
        ultimately show ?thesis using that by simp
      qed
      then show ?thesis by (meson less_add_same_cancel1 less_trans zero_less_numeral)
    qed
    have "frag_free_inv a cs1 w1 (i + 2) w'"
      unfolding frag_free_inv_def
    proof (intro conjI allI impI)
      show "length (heap w') = length (heap w1)" using hl by (simp add: h')
      show "malloc_calls w' = malloc_calls w1" using o' calls by simp
      show "malloc_ok w' = malloc_ok w1" using o' ok by simp
      show "lookup w' a = Some (Handles ?new)" by (simp add: lk)
      show "lookup w' c = (if \<exists>j < i + 2. odd j \<and> j < ?n \<and> cs1 ! j = Some (Blk c) then None
                            else lookup w1 c)" if "c \<noteq> a" for c
        using that lkw [OF that] by (simp only: ex lk if_False)
    qed
    then show ?thesis using body by blast
  next
    case False
    then obtain b where b: "cs1 ! i = Some (Blk b)" "b \<noteq> a" "lookup w1 b \<noteq> None"
      using ent by blast
    have nofree: "\<not> (\<exists>j < i. odd j \<and> j < ?n \<and> cs1 ! j = Some (Blk b))"
    proof
      assume "\<exists>j < i. odd j \<and> j < ?n \<and> cs1 ! j = Some (Blk b)"
      then obtain j where "j < i" "j < ?n" "cs1 ! j = Some (Blk b)" by blast
      then show False using uq [of j] b False by simp
    qed
    have live: "lookup w b \<noteq> None" using lkw [OF b(2)] nofree b(3) by simp
    have bl: "b < length (heap w)" using live by (rule lookup_live_less)
    have ld: "load_handle (Blk a) (int i) w = Inr (Blk b)"
      using load_handle_cells [OF hb ii] cur_i b by simp
    obtain wf where fr: "free (Blk b) w = Inr wf" and hf: "heap wf = (heap w)[b := None]"
      and of: "malloc_calls wf = malloc_calls w" "malloc_ok wf = malloc_ok w"
      using free_live [OF live] by simp
    have hbf: "lookup wf a = Some (Handles ?cur)"
      using hb b(2) al by (simp add: lookup_def hf)
    obtain w' where st: "store_handle (Blk a) (int i) NULL wf = Inr w'"
      and h': "heap w' = (heap wf)[a := Some (Handles ?new)]"
      and o': "malloc_calls w' = malloc_calls wf" "malloc_ok w' = malloc_ok wf"
      using store_handle_cells [OF hbf ii, of NULL] upd by simp
    have lk: "lookup w' c = (if c = a then Some (Handles ?new) else if c = b then None
                else lookup w c)" for c
      using al bl by (simp add: lookup_def h' hf)
    have body: "frag_free_body (int i) (Blk a) w = Inr w'"
      using ld fr st by (simp add: frag_free_body_def)
    have ex: "(\<exists>j < i + 2. odd j \<and> j < ?n \<and> cs1 ! j = Some (Blk c)) =
              (c = b \<or> (\<exists>j < i. odd j \<and> j < ?n \<and> cs1 ! j = Some (Blk c)))" for c
    proof
      assume "\<exists>j < i + 2. odd j \<and> j < ?n \<and> cs1 ! j = Some (Blk c)"
      then obtain j where j: "j < i + 2" "odd j" "j < ?n" "cs1 ! j = Some (Blk c)" by blast
      have "j \<noteq> i + 1" using j i(1) by auto
      then have "j = i \<or> j < i" using j by auto
      then show "c = b \<or> (\<exists>j < i. odd j \<and> j < ?n \<and> cs1 ! j = Some (Blk c))"
        using j b by auto
    next
      assume "c = b \<or> (\<exists>j < i. odd j \<and> j < ?n \<and> cs1 ! j = Some (Blk c))"
      then show "\<exists>j < i + 2. odd j \<and> j < ?n \<and> cs1 ! j = Some (Blk c)"
      proof
        assume "c = b"
        then have "i < i + 2 \<and> odd i \<and> i < ?n \<and> cs1 ! i = Some (Blk c)" using i b by simp
        then show ?thesis by blast
      next
        assume "\<exists>j < i. odd j \<and> j < ?n \<and> cs1 ! j = Some (Blk c)"
        then obtain j where "j < i" "odd j \<and> j < ?n \<and> cs1 ! j = Some (Blk c)" by blast
        then have "j < i + 2 \<and> odd j \<and> j < ?n \<and> cs1 ! j = Some (Blk c)" by simp
        then show ?thesis by blast
      qed
    qed
    have "frag_free_inv a cs1 w1 (i + 2) w'"
      unfolding frag_free_inv_def
    proof (intro conjI allI impI)
      show "length (heap w') = length (heap w1)" using hl by (simp add: h' hf)
      show "malloc_calls w' = malloc_calls w1" using o' of calls by simp
      show "malloc_ok w' = malloc_ok w1" using o' of ok by simp
      show "lookup w' a = Some (Handles ?new)" by (simp add: lk)
      show "lookup w' c = (if \<exists>j < i + 2. odd j \<and> j < ?n \<and> cs1 ! j = Some (Blk c) then None
                            else lookup w1 c)" if "c \<noteq> a" for c
      proof (cases "c = b")
        case True
        then show ?thesis using that by (simp only: ex lk) simp
      next
        case False
        then show ?thesis using that lkw [OF that] by (simp only: ex lk) simp
      qed
    qed
    then show ?thesis using body by blast
  qed
qed

lemma frag_free_loop_inv:
  "frag_free_inv a cs1 w1 (nat i) w \<Longrightarrow> good_list a cs1 w1 \<Longrightarrow> 0 \<le> i \<Longrightarrow> odd i \<Longrightarrow>
     length cs1 = nat count \<Longrightarrow>
     \<exists>w' m. frag_free_loop i count (Blk a) w = Inr w' \<and> length cs1 \<le> m \<and>
       frag_free_inv a cs1 w1 m w'"
proof (induction i count "Blk a" w rule: frag_free_loop.induct)
  case (1 i count w)
  show ?case
  proof (cases "i < count")
    case False
    then have "length cs1 \<le> nat i" using "1.prems" by simp
    then show ?thesis using False "1.prems"(1) by auto
  next
    case True
    then have lt: "nat i < length cs1" using "1.prems" by simp
    have od: "odd (nat i)" using "1.prems" by (simp add: even_nat_iff)
    obtain w2 where b: "frag_free_body (int (nat i)) (Blk a) w = Inr w2"
      and inv2: "frag_free_inv a cs1 w1 (nat i + 2) w2"
      using frag_free_step [OF "1.prems"(2) "1.prems"(1) od lt] by blast
    have b': "frag_free_body i (Blk a) w = Inr w2" using b "1.prems" by simp
    have "nat i + 2 = nat (i + 2)" using "1.prems" by simp
    then have "\<exists>w' m. frag_free_loop (i + 2) count (Blk a) w2 = Inr w' \<and> length cs1 \<le> m \<and>
       frag_free_inv a cs1 w1 m w'"
      using "1.hyps" [OF True b'] inv2 "1.prems" by simp
    then show ?thesis using True b' by simp
  qed
qed

lemma frag_free_inv_start:
  assumes "good_list a cs1 w1"
  shows "frag_free_inv a cs1 w1 (nat 1) w1"
proof -
  have hb: "lookup w1 a = Some (Handles cs1)" using assms unfolding good_list_def by blast
  have "map (\<lambda>j. if odd j \<and> j < nat 1 then Some NULL else cs1 ! j) [0..<length cs1] = cs1"
    by (rule nth_equalityI) auto
  then show ?thesis unfolding frag_free_inv_def using hb by auto
qed

lemma frag_alloc_inv_start:
  assumes gl: "good_list a cs1 w1" and inv: "frag_free_inv a cs1 w1 m w" and m: "length cs1 \<le> m"
  shows "frag_alloc_inv a cs1 w1 1 w"
proof -
  let ?n = "length cs1"
  let ?cur = "map (\<lambda>j. if odd j \<and> j < m then Some NULL else cs1 ! j) [0..<?n]"
  have hl: "length (heap w) = length (heap w1)" and hb: "lookup w a = Some (Handles ?cur)"
    and calls: "malloc_calls w = malloc_calls w1" and ok: "malloc_ok w = malloc_ok w1"
    and lkw: "\<And>b. b \<noteq> a \<Longrightarrow> lookup w b =
        (if \<exists>j < m. odd j \<and> j < ?n \<and> cs1 ! j = Some (Blk b) then None else lookup w1 b)"
    using inv unfolding frag_free_inv_def by blast+
  have ex: "(\<exists>j < m. odd j \<and> j < ?n \<and> cs1 ! j = Some (Blk b)) =
            (\<exists>j < ?n. odd j \<and> cs1 ! j = Some (Blk b))" for b
    using m by (meson less_le_trans)
  show ?thesis
    unfolding frag_alloc_inv_def
  proof (intro exI [of _ ?cur] conjI allI impI)
    show "lookup w a = Some (Handles ?cur)" by (rule hb)
    show "length ?cur = ?n" by simp
    show "length (heap w1) \<le> length (heap w)" using hl by simp
    show "malloc_calls w = malloc_calls w1 + 1 div 2" using calls by simp
    show "malloc_ok w = malloc_ok w1" by (rule ok)
    show "?cur ! j = cs1 ! j" if "j < ?n" "\<not> odd j" for j using that by simp
    show "if j < 1 \<and> malloc_ok w1 (malloc_calls w1 + j div 2)
          then \<exists>b. ?cur ! j = Some (Blk b) \<and> length (heap w1) \<le> b \<and>
                 filled_buffer w b 128 8192 0xCD
          else ?cur ! j = Some NULL" if "j < ?n" "odd j" for j
    proof -
      have "\<not> j < 1" using that(2) by (cases j) simp_all
      moreover have "?cur ! j = Some NULL" using that m by simp
      ultimately show ?thesis by simp
    qed
    show "lookup w b = (if \<exists>j < ?n. odd j \<and> cs1 ! j = Some (Blk b) then None else lookup w1 b)"
      if "b < length (heap w1)" "b \<noteq> a" for b
      using lkw [OF that(2)] by (simp only: ex)
  qed
qed

lemma frag_alloc_step:
  assumes inv: "frag_alloc_inv a cs1 w1 i w" and i: "odd i" "i < length cs1"
    and a: "a < length (heap w1)"
  shows "\<exists>w'. frag_alloc_body (int i) (Blk a) w = Inr w' \<and> frag_alloc_inv a cs1 w1 (i + 2) w'"
proof -
  let ?n = "length cs1"
  let ?h1 = "length (heap w1)"
  obtain cs where hb: "lookup w a = Some (Handles cs)" and len: "length cs = ?n"
    and grow: "?h1 \<le> length (heap w)"
    and calls: "malloc_calls w = malloc_calls w1 + i div 2" and ok: "malloc_ok w = malloc_ok w1"
    and ev: "\<And>j. j < ?n \<Longrightarrow> \<not> odd j \<Longrightarrow> cs ! j = cs1 ! j"
    and od: "\<And>j. j < ?n \<Longrightarrow> odd j \<Longrightarrow>
           (if j < i \<and> malloc_ok w1 (malloc_calls w1 + j div 2)
            then (\<exists>b. cs ! j = Some (Blk b) \<and> ?h1 \<le> b \<and> filled_buffer w b 128 8192 0xCD)
            else cs ! j = Some NULL)"
    and old: "\<And>b. b < ?h1 \<Longrightarrow> b \<noteq> a \<Longrightarrow>
           lookup w b = (if \<exists>j < ?n. odd j \<and> cs1 ! j = Some (Blk b) then None else lookup w1 b)"
    using inv unfolding frag_alloc_inv_def by blast
  have granted: "malloc_ok w (malloc_calls w) = malloc_ok w1 (malloc_calls w1 + i div 2)"
    using calls ok by simp
  have al: "a < length (heap w)" using a grow by simp
  have ii: "0 \<le> int i" "nat (int i) < length cs" using i len by simp_all
  obtain w' sz where run: "alloc_into 128 8192 0xCD (int i) (Blk a) w = Inr w'"
    and sz: "unat (128::u64) \<le> sz" "sz < unat (8192::u64)"
    and calls': "malloc_calls w' = Suc (malloc_calls w)" and ok': "malloc_ok w' = malloc_ok w"
    and hp: "if malloc_ok w (malloc_calls w)
            then heap w' = (heap w)[a := Some (Handles (cs[nat (int i) := Some (Blk (length (heap w)))]))]
                             @ [Some (Bytes (replicate sz (Some 0xCD)))]
            else heap w' = (heap w)[a := Some (Handles (cs[nat (int i) := Some NULL]))]"
    using alloc_into_effect [OF hb ii, where lo = 128 and hi = 8192 and c = "0xCD"] by auto
  have run': "frag_alloc_body (int i) (Blk a) w = Inr w'"
    using run by (simp add: frag_alloc_body_alloc_into)
  define p where "p = (if malloc_ok w (malloc_calls w) then Blk (length (heap w)) else NULL)"
  let ?cs' = "cs[i := Some p]"
  have lka: "lookup w' a = Some (Handles ?cs')"
    using hp al by (auto simp: lookup_def p_def nth_append split: if_splits)
  have lko: "lookup w' c = lookup w c" if "c \<noteq> a" "c < length (heap w)" for c
    using hp that by (auto simp: lookup_def nth_append split: if_splits)
  have lkn: "filled_buffer w' (length (heap w)) 128 8192 0xCD" if "malloc_ok w (malloc_calls w)"
    using hp that al sz by (simp add: filled_buffer_def lookup_def nth_append)
  have hl': "length (heap w) \<le> length (heap w')" using hp by (auto split: if_splits)
  have keep: "filled_buffer w' b 128 8192 0xCD" if "?h1 \<le> b" "filled_buffer w b 128 8192 0xCD" for b
  proof -
    have "b < length (heap w)" using that(2) by (intro lookup_live_less filled_buffer_live)
    moreover have "b \<noteq> a" using that(1) a by simp
    ultimately show ?thesis using that(2) lko [of b] by (simp add: filled_buffer_def)
  qed
  have "frag_alloc_inv a cs1 w1 (i + 2) w'"
    unfolding frag_alloc_inv_def
  proof (intro exI [of _ ?cs'] conjI allI impI)
    show "lookup w' a = Some (Handles ?cs')" by (rule lka)
    show "length ?cs' = ?n" using len by simp
    show "?h1 \<le> length (heap w')" using grow hl' by simp
    show "malloc_calls w' = malloc_calls w1 + (i + 2) div 2" using calls calls' by simp
    show "malloc_ok w' = malloc_ok w1" using ok ok' by simp
    show "?cs' ! j = cs1 ! j" if "j < ?n" "\<not> odd j" for j
    proof -
      have "j \<noteq> i" using that i by auto
      then show ?thesis using ev [OF that] by simp
    qed
    show "if j < i + 2 \<and> malloc_ok w1 (malloc_calls w1 + j div 2)
          then \<exists>b. ?cs' ! j = Some (Blk b) \<and> ?h1 \<le> b \<and> filled_buffer w' b 128 8192 0xCD
          else ?cs' ! j = Some NULL" if j: "j < ?n" "odd j" for j
    proof (cases "j = i")
      case True
      show ?thesis
      proof (cases "malloc_ok w (malloc_calls w)")
        case ok: True
        then have "?cs' ! j = Some (Blk (length (heap w)))" using True i len by (simp add: p_def)
        moreover have "malloc_ok w1 (malloc_calls w1 + j div 2)" using ok granted True by simp
        ultimately show ?thesis using True lkn [OF ok] grow by simp
      next
        case False
        then have "?cs' ! j = Some NULL" using True i len by (simp add: p_def)
        moreover have "\<not> malloc_ok w1 (malloc_calls w1 + j div 2)" using False granted True by simp
        ultimately show ?thesis by simp
      qed
    next
      case False
      then have same: "?cs' ! j = cs ! j" by simp
      have "j \<noteq> i + 1" using j i by auto
      then have lt: "(j < i + 2) = (j < i)" using False by auto
      show ?thesis
      proof (cases "j < i \<and> malloc_ok w1 (malloc_calls w1 + j div 2)")
        case True
        then obtain b where b: "cs ! j = Some (Blk b)" "?h1 \<le> b" "filled_buffer w b 128 8192 0xCD"
          using od [OF j] by auto
        have "filled_buffer w' b 128 8192 0xCD" using keep [OF b(2,3)] .
        then have "\<exists>b. ?cs' ! j = Some (Blk b) \<and> ?h1 \<le> b \<and> filled_buffer w' b 128 8192 0xCD"
          using b same by auto
        then show ?thesis using True lt by simp
      next
        case nt: False
        then have "cs ! j = Some NULL" using od [OF j] by simp
        then show ?thesis using nt lt same by simp
      qed
    qed
    show "lookup w' b = (if \<exists>j < ?n. odd j \<and> cs1 ! j = Some (Blk b) then None else lookup w1 b)"
      if "b < ?h1" "b \<noteq> a" for b
    proof -
      have "b < length (heap w)" using that grow by simp
      then show ?thesis using lko [OF that(2)] old [OF that] by simp
    qed
  qed
  then show ?thesis using run' by blast
qed

lemma frag_alloc_loop_inv:
  "frag_alloc_inv a cs1 w1 (nat i) w \<Longrightarrow> a < length (heap w1) \<Longrightarrow> 0 \<le> i \<Longrightarrow> odd i \<Longrightarrow>
     length cs1 = nat count \<Longrightarrow>
     \<exists>w' m. frag_alloc_loop i count (Blk a) w = Inr w' \<and> length cs1 \<le> m \<and>
       frag_alloc_inv a cs1 w1 m w'"
proof (induction i count "Blk a" w rule: frag_alloc_loop.induct)
  case (1 i count w)
  show ?case
  proof (cases "i < count")
    case False
    then have "length cs1 \<le> nat i" using "1.prems" by simp
    then show ?thesis using False "1.prems"(1) by auto
  next
    case True
    then have lt: "nat i < length cs1" using "1.prems" by simp
    have od: "odd (nat i)" using "1.prems" by (simp add: even_nat_iff)
    obtain w2 where b: "frag_alloc_body (int (nat i)) (Blk a) w = Inr w2"
      and inv2: "frag_alloc_inv a cs1 w1 (nat i + 2) w2"
      using frag_alloc_step [OF "1.prems"(1) od lt "1.prems"(2)] by blast
    have b': "frag_alloc_body i (Blk a) w = Inr w2" using b "1.prems" by simp
    have "nat i + 2 = nat (i + 2)" using "1.prems" by simp
    then have "\<exists>w' m. frag_alloc_loop (i + 2) count (Blk a) w2 = Inr w' \<and> length cs1 \<le> m \<and>
       frag_alloc_inv a cs1 w1 m w'"
      using "1.hyps" [OF True b'] inv2 "1.prems" by simp
    then show ?thesis using True b' by simp
  qed
qed

lemma phase_fragment_good_list:
  assumes gl: "good_list a cs1 w1" and n: "length cs1 = nat count"
  shows "\<exists>w2 m. phase_fragment (Blk a) count w1 = Inr w2 \<and> length cs1 \<le> m \<and>
           frag_alloc_inv a cs1 w1 m w2"
proof -
  have a: "a < length (heap w1)"
    using gl unfolding good_list_def by (intro lookup_live_less) simp
  obtain wf k where f: "frag_free_loop 1 count (Blk a) w1 = Inr wf" and k: "length cs1 \<le> k"
    and fi: "frag_free_inv a cs1 w1 k wf"
    using frag_free_loop_inv [OF frag_free_inv_start [OF gl] gl _ _ n] by auto
  have "frag_alloc_inv a cs1 w1 (nat 1) wf"
    using frag_alloc_inv_start [OF gl fi k] by simp
  then obtain w2 m where "frag_alloc_loop 1 count (Blk a) wf = Inr w2" "length cs1 \<le> m"
    "frag_alloc_inv a cs1 w1 m w2"
    using frag_alloc_loop_inv [OF _ a _ _ n, of 1 wf] by auto
  then show ?thesis using f by (auto simp: phase_fragment_def)
qed

lemma phase_fragment_empty: "phase_fragment ptrs 0 w = Inr w"
  by (simp add: phase_fragment_def)

lemma fragment_after_accumulate:
  assumes inv: "accum_inv w (nat count) (nat count) w1" and c: "0 \<le> count"
  shows "\<exists>w2. phase_fragment (Blk (length (heap w))) count w1 = Inr w2 \<and>
     length (handles_of w2 (Blk (length (heap w)))) = nat count \<and>
     (\<forall>j < nat count. even j \<longrightarrow>
        handles_of w2 (Blk (length (heap w))) ! j = handles_of w1 (Blk (length (heap w))) ! j \<and>
        (\<forall>b. handles_of w1 (Blk (length (heap w))) ! j = Some (Blk b) \<longrightarrow>
           lookup w2 b = lookup w1 b \<and> filled_buffer w2 b 4096 65536 0xAB)) \<and>
     (\<forall>j < nat count. odd j \<longrightarrow>
        (\<forall>b. handles_of w1 (Blk (length (heap w))) ! j = Some (Blk b) \<longrightarrow> lookup w2 b = None) \<and>
        (if malloc_ok w1 (malloc_calls w1 + j div 2)
         then (\<exists>b. handles_of w2 (Blk (length (heap w))) ! j = Some (Blk b) \<and>
                   length (heap w1) \<le> b \<and> filled_buffer w2 b 128 8192 0xCD)
         else handles_of w2 (Blk (length (heap w))) ! j = Some NULL))"
proof -
  let ?a = "length (heap w)"
  let ?n = "nat count"
  obtain cs1 where n: "length cs1 = ?n" and gl: "good_list ?a cs1 w1"
    using accum_inv_good_list [OF inv] by blast
  have hb1: "lookup w1 ?a = Some (Handles cs1)"
    using gl unfolding good_list_def by blast
  have ent1: "cs1 ! j = Some NULL \<or>
                 (\<exists>b. cs1 ! j = Some (Blk b) \<and> b \<noteq> ?a \<and> lookup w1 b \<noteq> None)"
    if "j < ?n" for j
  proof -
    have "j < length cs1" using that n by simp
    then show ?thesis using gl unfolding good_list_def by blast
  qed
  have uq1: "j = k" if "j < ?n" "k < ?n" "cs1 ! j = cs1 ! k" "cs1 ! j \<noteq> Some NULL" for j k
  proof -
    have "j < length cs1" "k < length cs1" using that n by simp_all
    then show ?thesis using gl that(3,4) unfolding good_list_def by blast
  qed
  have h1: "handles_of w1 (Blk ?a) = cs1" using hb1 by (simp add: handles_of_def)
  have ents: "\<forall>j < ?n. if malloc_ok w (Suc (malloc_calls w) + j)
          then (\<exists>b. cs1 ! j = Some (Blk b) \<and> filled_buffer w1 b 4096 65536 0xAB)
          else cs1 ! j = Some NULL"
    using accum_inv_entries [OF inv, THEN conjunct2] by (simp only: h1)
  have fill1: "filled_buffer w1 b 4096 65536 0xAB" if j: "j < ?n" and b: "cs1 ! j = Some (Blk b)" for j b
  proof (cases "malloc_ok w (Suc (malloc_calls w) + j)")
    case True
    then have "\<exists>b. cs1 ! j = Some (Blk b) \<and> filled_buffer w1 b 4096 65536 0xAB"
      using ents [THEN spec, of j] j by simp
    then show ?thesis using b by auto
  next
    case False
    then have "cs1 ! j = Some NULL" using ents [THEN spec, of j] j by simp
    then show ?thesis using b by simp
  qed
  have n': "length cs1 = nat count" using n .
  obtain w2 m where run: "phase_fragment (Blk ?a) count w1 = Inr w2" and m: "length cs1 \<le> m"
    and fin: "frag_alloc_inv ?a cs1 w1 m w2"
    using phase_fragment_good_list [OF gl n'] by blast
  obtain cs where hb2: "lookup w2 ?a = Some (Handles cs)" and len0: "length cs = length cs1"
    and ev0: "\<And>j. j < length cs1 \<Longrightarrow> \<not> odd j \<Longrightarrow> cs ! j = cs1 ! j"
    and od0: "\<And>j. j < length cs1 \<Longrightarrow> odd j \<Longrightarrow>
           (if j < m \<and> malloc_ok w1 (malloc_calls w1 + j div 2)
            then (\<exists>b. cs ! j = Some (Blk b) \<and> length (heap w1) \<le> b \<and>
                      filled_buffer w2 b 128 8192 0xCD)
            else cs ! j = Some NULL)"
    and old0: "\<And>b. b < length (heap w1) \<Longrightarrow> b \<noteq> ?a \<Longrightarrow>
           lookup w2 b = (if \<exists>j < length cs1. odd j \<and> cs1 ! j = Some (Blk b) then None
                          else lookup w1 b)"
    using fin unfolding frag_alloc_inv_def by blast
  note len = len0 [unfolded n] and ev = ev0 [unfolded n] and od = od0 [unfolded n]
    and old = old0 [unfolded n]
  have h2: "handles_of w2 (Blk ?a) = cs" using hb2 by (simp add: handles_of_def)
  have blk: "b < length (heap w1) \<and> b \<noteq> ?a" if j: "j < ?n" and b: "cs1 ! j = Some (Blk b)" for j b
  proof -
    have "b \<noteq> ?a \<and> lookup w1 b \<noteq> None" using ent1 [OF j] b by auto
    then show ?thesis using lookup_live_less [of w1 b] by simp
  qed
  have even_part: "cs ! j = cs1 ! j \<and>
      (\<forall>b. cs1 ! j = Some (Blk b) \<longrightarrow> lookup w2 b = lookup w1 b \<and> filled_buffer w2 b 4096 65536 0xAB)"
    if j: "j < ?n" and e: "even j" for j
  proof -
    have "lookup w2 b = lookup w1 b" if b: "cs1 ! j = Some (Blk b)" for b
    proof -
      have nex: "\<not> (\<exists>k < ?n. odd k \<and> cs1 ! k = Some (Blk b))"
      proof
        assume "\<exists>k < ?n. odd k \<and> cs1 ! k = Some (Blk b)"
        then obtain k where k: "k < ?n" "odd k" "cs1 ! k = Some (Blk b)" by blast
        then have "k = j" using uq1 [OF k(1) j] b by simp
        then show False using k(2) e by simp
      qed
      have "lookup w2 b =
          (if \<exists>k < ?n. odd k \<and> cs1 ! k = Some (Blk b) then None else lookup w1 b)"
        using old blk [OF j b] by blast
      then show ?thesis by (simp only: nex if_False)
    qed
    moreover have "filled_buffer w2 b 4096 65536 0xAB" if b: "cs1 ! j = Some (Blk b)" for b
      using fill1 [OF j b] \<open>\<And>b. cs1 ! j = Some (Blk b) \<Longrightarrow> lookup w2 b = lookup w1 b\<close> [OF b]
      by (simp add: filled_buffer_def)
    moreover have "cs ! j = cs1 ! j" using ev [OF j] e by simp
    ultimately show ?thesis by blast
  qed
  have odd_part: "(\<forall>b. cs1 ! j = Some (Blk b) \<longrightarrow> lookup w2 b = None) \<and>
      (if malloc_ok w1 (malloc_calls w1 + j div 2)
       then (\<exists>b. cs ! j = Some (Blk b) \<and> length (heap w1) \<le> b \<and>
                 filled_buffer w2 b 128 8192 0xCD)
       else cs ! j = Some NULL)"
    if j: "j < ?n" and o: "odd j" for j
  proof -
    have "lookup w2 b = None" if b: "cs1 ! j = Some (Blk b)" for b
    proof -
      have ex: "\<exists>k < ?n. odd k \<and> cs1 ! k = Some (Blk b)" using j o b by blast
      have "lookup w2 b =
          (if \<exists>k < ?n. odd k \<and> cs1 ! k = Some (Blk b) then None else lookup w1 b)"
        using old blk [OF j b] by blast
      then show ?thesis by (simp only: ex if_True)
    qed
    moreover have "j < m" using j m n by simp
    then have "if malloc_ok w1 (malloc_calls w1 + j div 2)
       then (\<exists>b. cs ! j = Some (Blk b) \<and> length (heap w1) \<le> b \<and>
                 filled_buffer w2 b 128 8192 0xCD)
       else cs ! j = Some NULL"
      using od [OF j o] by simp
    ultimately show ?thesis by blast
  qed
  show ?thesis
  proof (intro exI [of _ w2] conjI allI impI)
    show "phase_fragment (Blk ?a) count w1 = Inr w2" by (rule run)
    show "length (handles_of w2 (Blk ?a)) = nat count" using len by (simp only: h2)
    show "handles_of w2 (Blk ?a) ! j = handles_of w1 (Blk ?a) ! j" if "j < nat count" "even j" for j
      using even_part [OF that] by (simp only: h1 h2)
    show "lookup w2 b = lookup w1 b"
      if "j < nat count" "even j" "handles_of w1 (Blk ?a) ! j = Some (Blk b)" for j b
    proof -
      have "cs1 ! j = Some (Blk b)" using that(3) by (simp only: h1)
      then show ?thesis using even_part [OF that(1,2)] by blast
    qed
    show "filled_buffer w2 b 4096 65536 0xAB"
      if "j < nat count" "even j" "handles_of w1 (Blk ?a) ! j = Some (Blk b)" for j b
    proof -
      have "cs1 ! j = Some (Blk b)" using that(3) by (simp only: h1)
      then show ?thesis using even_part [OF that(1,2)] by blast
    qed
    show "lookup w2 b = None"
      if "j < nat count" "odd j" "handles_of w1 (Blk ?a) ! j = Some (Blk b)" for j b
    proof -
      have "cs1 ! j = Some (Blk b)" using that(3) by (simp only: h1)
      then show ?thesis using odd_part [OF that(1,2)] by blast
    qed
    show "if malloc_ok w1 (malloc_calls w1 + j div 2)
          then \<exists>b. handles_of w2 (Blk ?a) ! j = Some (Blk b) \<and> length (heap w1) \<le> b \<and>
                 filled_buffer w2 b 128 8192 0xCD
          else handles_of w2 (Blk ?a) ! j = Some NULL"
      if "j < nat count" "odd j" for j
      using odd_part [OF that, THEN conjunct2] by (simp only: h2)
  qed
qed

text \<open>
  C6: for a count in the range of \<open>int\<close> and a handle array produced by the accumulate
  phase, the fragment phase completes; after it the array still has \<open>count\<close> entries, every
  even-indexed entry is the handle it was and its buffer has the content it had (a size in
  \<open>[4096, 65536)\<close>, every byte \<open>0xAB\<close>); for every odd index \<open>j\<close> the former buffer is
  freed and the entry is replaced: when the call of \<open>malloc\<close> for it (call number
  \<open>j div 2\<close> of this phase) is granted, the entry is a buffer allocated by this phase, of a
  size in \<open>[128, 8192)\<close> with every byte \<open>0xCD\<close>, and it is null when the call is refused.
\<close>

theorem fragment_frame:
  assumes "0 \<le> count" and "count < 2 ^ 31"
    and "phase_accumulate count w = Inr (ptrs, n, w1)"
  shows "\<exists>w2. phase_fragment ptrs n w1 = Inr w2 \<and>
     length (handles_of w2 ptrs) = nat count \<and>
     (\<forall>j < nat count. even j \<longrightarrow>
        handles_of w2 ptrs ! j = handles_of w1 ptrs ! j \<and>
        (\<forall>b. handles_of w1 ptrs ! j = Some (Blk b) \<longrightarrow>
           lookup w2 b = lookup w1 b \<and> filled_buffer w2 b 4096 65536 0xAB)) \<and>
     (\<forall>j < nat count. odd j \<longrightarrow>
        (\<forall>b. handles_of w1 ptrs ! j = Some (Blk b) \<longrightarrow> lookup w2 b = None) \<and>
        (if malloc_ok w1 (malloc_calls w1 + j div 2)
         then (\<exists>b. handles_of w2 ptrs ! j = Some (Blk b) \<and>
                   length (heap w1) \<le> b \<and> filled_buffer w2 b 128 8192 0xCD)
         else handles_of w2 ptrs ! j = Some NULL))"
proof (cases "malloc_ok w (malloc_calls w)")
  case True
  obtain w' where r: "phase_accumulate count w = Inr (Blk (length (heap w)), count, w')"
    and inv: "accum_inv w (nat count) (nat count) w'"
    using phase_accumulate_inv [OF assms(1,2) True] by blast
  have eq: "ptrs = Blk (length (heap w))" "n = count" "w1 = w'" using r assms(3) by simp_all
  show ?thesis unfolding eq using fragment_after_accumulate [OF inv assms(1)] .
next
  case False
  show ?thesis
  proof (cases "count = 0")
    case True
    then have "ptrs = NULL" "n = 0" using assms(3) phase_accumulate_empty [OF False] by simp_all
    then show ?thesis using True by (simp add: phase_fragment_empty handles_of_def)
  next
    case nz: False
    then have "phase_accumulate count w = Inl NullDeref"
      using assms False by (intro phase_accumulate_null) simp_all
    then show ?thesis using assms(3) by simp
  qed
qed

lemma accum_inv_allocator:
  "accum_inv w0 n i w \<Longrightarrow> malloc_calls w = Suc (malloc_calls w0) + i \<and> malloc_ok w = malloc_ok w0"
  unfolding accum_inv_def by blast

theorem fragment_frame_witness:
  "(0::int) \<le> 4 \<and> (4::int) < 2 ^ 31 \<and>
   (\<exists>w1 w2. phase_accumulate 4 (init_world (\<lambda>n. n \<noteq> 6)) = Inr (Blk 0, 4, w1) \<and>
      phase_fragment (Blk 0) 4 w1 = Inr w2 \<and>
      length (handles_of w2 (Blk 0)) = 4 \<and>
      handles_of w2 (Blk 0) ! 0 = handles_of w1 (Blk 0) ! 0 \<and>
      (\<exists>b. handles_of w1 (Blk 0) ! 0 = Some (Blk b) \<and> lookup w2 b = lookup w1 b \<and>
           filled_buffer w2 b 4096 65536 0xAB) \<and>
      (\<exists>b. handles_of w1 (Blk 0) ! 1 = Some (Blk b) \<and> lookup w2 b = None) \<and>
      malloc_ok w1 (malloc_calls w1 + 1 div 2) \<and>
      (\<exists>b. handles_of w2 (Blk 0) ! 1 = Some (Blk b) \<and> length (heap w1) \<le> b \<and>
           filled_buffer w2 b 128 8192 0xCD) \<and>
      \<not> malloc_ok w1 (malloc_calls w1 + 3 div 2) \<and>
      handles_of w2 (Blk 0) ! 3 = Some NULL)"
proof -
  let ?w = "init_world (\<lambda>n. n \<noteq> 6)"
  have a: "(0::int) \<le> 4" and b: "(4::int) < 2 ^ 31" by simp_all
  have ok: "malloc_ok ?w (malloc_calls ?w)" and len: "length (heap ?w) = 0"
    by (simp_all add: init_world_def)
  obtain w1 where r0: "phase_accumulate 4 ?w = Inr (Blk (length (heap ?w)), 4, w1)"
    and inv: "accum_inv ?w (nat 4) (nat 4) w1"
    using phase_accumulate_inv [OF a b ok] by blast
  have r: "phase_accumulate 4 ?w = Inr (Blk 0, 4, w1)" using r0 by (simp only: len)
  have ents: "\<forall>j < nat 4. if malloc_ok ?w (Suc (malloc_calls ?w) + j)
                 then (\<exists>b. handles_of w1 (Blk 0) ! j = Some (Blk b) \<and>
                           filled_buffer w1 b 4096 65536 0xAB)
                 else handles_of w1 (Blk 0) ! j = Some NULL"
    using accum_inv_entries [OF inv, THEN conjunct2] by (simp only: len)
  have g1: "malloc_ok w1 (malloc_calls w1 + 1 div 2)"
    and g3: "\<not> malloc_ok w1 (malloc_calls w1 + 3 div 2)"
    using accum_inv_allocator [OF inv] by (simp_all add: init_world_def)
  obtain c0 where c0: "handles_of w1 (Blk 0) ! 0 = Some (Blk c0)"
    using ents [THEN spec, of 0] by (auto simp: init_world_def)
  obtain c1 where c1: "handles_of w1 (Blk 0) ! 1 = Some (Blk c1)"
    using ents [THEN spec, of 1] by (auto simp: init_world_def)
  obtain w2 where f: "phase_fragment (Blk 0) 4 w1 = Inr w2"
    and l2: "length (handles_of w2 (Blk 0)) = nat 4"
    and ev: "\<forall>j < nat 4. even j \<longrightarrow>
        handles_of w2 (Blk 0) ! j = handles_of w1 (Blk 0) ! j \<and>
        (\<forall>b. handles_of w1 (Blk 0) ! j = Some (Blk b) \<longrightarrow>
           lookup w2 b = lookup w1 b \<and> filled_buffer w2 b 4096 65536 0xAB)"
    and od: "\<forall>j < nat 4. odd j \<longrightarrow>
        (\<forall>b. handles_of w1 (Blk 0) ! j = Some (Blk b) \<longrightarrow> lookup w2 b = None) \<and>
        (if malloc_ok w1 (malloc_calls w1 + j div 2)
         then (\<exists>b. handles_of w2 (Blk 0) ! j = Some (Blk b) \<and>
                   length (heap w1) \<le> b \<and> filled_buffer w2 b 128 8192 0xCD)
         else handles_of w2 (Blk 0) ! j = Some NULL)"
    using fragment_frame [OF a b r] by blast
  have e0: "handles_of w2 (Blk 0) ! 0 = handles_of w1 (Blk 0) ! 0"
    and e0': "lookup w2 c0 = lookup w1 c0 \<and> filled_buffer w2 c0 4096 65536 0xAB"
    using ev [THEN spec, of 0] c0 by simp_all
  have o1: "lookup w2 c1 = None"
    and o1': "\<exists>b. handles_of w2 (Blk 0) ! 1 = Some (Blk b) \<and>
              length (heap w1) \<le> b \<and> filled_buffer w2 b 128 8192 0xCD"
    using od [THEN spec, of 1] c1 g1 by simp_all
  have o3: "handles_of w2 (Blk 0) ! 3 = Some NULL"
    using od [THEN spec, of 3] g3 by simp
  have "\<exists>w1 w2. phase_accumulate 4 ?w = Inr (Blk 0, 4, w1) \<and>
      phase_fragment (Blk 0) 4 w1 = Inr w2 \<and>
      length (handles_of w2 (Blk 0)) = 4 \<and>
      handles_of w2 (Blk 0) ! 0 = handles_of w1 (Blk 0) ! 0 \<and>
      (\<exists>b. handles_of w1 (Blk 0) ! 0 = Some (Blk b) \<and> lookup w2 b = lookup w1 b \<and>
           filled_buffer w2 b 4096 65536 0xAB) \<and>
      (\<exists>b. handles_of w1 (Blk 0) ! 1 = Some (Blk b) \<and> lookup w2 b = None) \<and>
      malloc_ok w1 (malloc_calls w1 + 1 div 2) \<and>
      (\<exists>b. handles_of w2 (Blk 0) ! 1 = Some (Blk b) \<and> length (heap w1) \<le> b \<and>
           filled_buffer w2 b 128 8192 0xCD) \<and>
      \<not> malloc_ok w1 (malloc_calls w1 + 3 div 2) \<and>
      handles_of w2 (Blk 0) ! 3 = Some NULL"
  proof (rule exI [of _ w1], rule exI [of _ w2], intro conjI)
    show "phase_accumulate 4 ?w = Inr (Blk 0, 4, w1)" by (rule r)
    show "phase_fragment (Blk 0) 4 w1 = Inr w2" by (rule f)
    show "length (handles_of w2 (Blk 0)) = 4" using l2 by simp
    show "handles_of w2 (Blk 0) ! 0 = handles_of w1 (Blk 0) ! 0" by (rule e0)
    show "\<exists>b. handles_of w1 (Blk 0) ! 0 = Some (Blk b) \<and> lookup w2 b = lookup w1 b \<and>
           filled_buffer w2 b 4096 65536 0xAB"
      using c0 e0' by (intro exI [of _ c0]) simp
    show "\<exists>b. handles_of w1 (Blk 0) ! 1 = Some (Blk b) \<and> lookup w2 b = None"
      using c1 o1 by (intro exI [of _ c1]) simp
    show "malloc_ok w1 (malloc_calls w1 + 1 div 2)" by (rule g1)
    show "\<exists>b. handles_of w2 (Blk 0) ! 1 = Some (Blk b) \<and> length (heap w1) \<le> b \<and>
           filled_buffer w2 b 128 8192 0xCD"
      by (rule o1')
    show "\<not> malloc_ok w1 (malloc_calls w1 + 3 div 2)" by (rule g3)
    show "handles_of w2 (Blk 0) ! 3 = Some NULL" by (rule o3)
  qed
  with a b show ?thesis by (intro conjI)
qed

end
